theory Spec2Isabelle
  imports Main "HOL-Library.Word" "HOL-Library.Sublist"
begin

unbundle bit_operations_syntax

section \<open>Values shared by the three scripts\<close>

text \<open>
  Python \<^verbatim>\<open>bytes\<close> are lists of 8-bit words. A Python \<^verbatim>\<open>str\<close> is kept as the list of
  its UTF-8 code units (\<^typ>\<open>string\<close>), so \<^verbatim>\<open>s.encode('utf-8')\<close> reads the code units
  as bytes and \<^verbatim>\<open>b.decode('utf-8')\<close> checks that the bytes are well-formed UTF-8.
  Exceptions are values of \<open>exn\<close>; a call that may raise returns \<open>exn + 'a\<close>.
\<close>

type_synonym byte = "8 word"

datatype exn =
    ZeroDivisionError
  | IndexError
  | TypeError
  | ValueError
  | BinasciiError string
  | UnicodeDecodeError
  | ZlibError
  | SyntaxError

text \<open>
  The double quote, the single quote and the line feed, written by name in the program
  texts below, and the triple quote that delimits the literal of a loader.
\<close>

abbreviation dq :: char where "dq \<equiv> CHR 0x22"
abbreviation sq :: char where "sq \<equiv> CHR 0x27"
abbreviation nl :: char where "nl \<equiv> CHR 0x0A"
abbreviation tq :: string where "tq \<equiv> [dq, dq, dq]"

section \<open>pyobf_xor_mashal.py: xor_bytes\<close>

text \<open>
  \<^verbatim>\<open>out = bytearray(len(data)); klen = len(key)\<close>, then for every \<open>(i, b)\<close> of
  \<^verbatim>\<open>enumerate(data)\<close>: \<^verbatim>\<open>out[i] = b ^ key[i % klen]\<close>. The loop carries the index and the
  output array; \<^verbatim>\<open>i % 0\<close> raises ZeroDivisionError.
\<close>

fun xor_loop :: "byte list \<Rightarrow> nat \<Rightarrow> byte list \<Rightarrow> nat \<Rightarrow> byte list \<Rightarrow> exn + byte list" where
  "xor_loop key klen [] i out = Inr out"
| "xor_loop key klen (b # bs) i out =
     (if klen = 0 then Inl ZeroDivisionError
      else xor_loop key klen bs (i + 1) (out[i := b XOR key ! (i mod klen)]))"

definition xor_bytes :: "byte list \<Rightarrow> byte list \<Rightarrow> exn + byte list" where
  "xor_bytes data key = xor_loop key (length key) data 0 (replicate (length data) 0)"

section \<open>The base-64 codec of the standard library\<close>

text \<open>
  \<^verbatim>\<open>base64.b64encode\<close> (RFC 4648, with padding), read together with the
  \<^verbatim>\<open>.decode('ascii')\<close> that every caller applies to its result.
\<close>

definition b64char :: "nat \<Rightarrow> char" where
  "b64char n =
     (if n < 26 then char_of (65 + n)
      else if n < 52 then char_of (71 + n)
      else if n < 62 then char_of (n - 4)
      else if n = 62 then CHR ''+'' else CHR ''/'')"

fun b64encode :: "byte list \<Rightarrow> string" where
  "b64encode [] = []"
| "b64encode [a] =
     [b64char (unat a div 4), b64char ((unat a mod 4) * 16), CHR ''='', CHR ''='']"
| "b64encode [a, b] =
     [b64char (unat a div 4), b64char ((unat a mod 4) * 16 + unat b div 16),
      b64char ((unat b mod 16) * 4), CHR ''='']"
| "b64encode (a # b # c # bs) =
     [b64char (unat a div 4), b64char ((unat a mod 4) * 16 + unat b div 16),
      b64char ((unat b mod 16) * 4 + unat c div 64), b64char (unat c mod 64)] @ b64encode bs"

text \<open>
  \<^verbatim>\<open>base64.b64decode(s)\<close> with its default \<^verbatim>\<open>validate=False\<close>: a \<^verbatim>\<open>str\<close> argument must be
  ASCII, then \<^verbatim>\<open>binascii.a2b_base64\<close> runs in its lenient mode. The loop keeps the position
  in the current group of four (\<open>q\<close>), the bits left over (\<open>l\<close>), the count of padding
  characters seen since the last digit (\<open>p\<close>) and the bytes written so far. Characters
  outside the alphabet are skipped; padding that completes a group ends the decoding;
  an incomplete last group is an error.
\<close>

definition b64val :: "char \<Rightarrow> nat option" where
  "b64val c =
     (let n = (of_char c :: nat) in
      if 65 \<le> n \<and> n \<le> 90 then Some (n - 65)
      else if 97 \<le> n \<and> n \<le> 122 then Some (n - 71)
      else if 48 \<le> n \<and> n \<le> 57 then Some (n + 4)
      else if n = 43 then Some 62
      else if n = 47 then Some 63
      else None)"

function dec :: "nat \<Rightarrow> string" where
  "dec n = (if n < 10 then [char_of (48 + n)] else dec (n div 10) @ [char_of (48 + n mod 10)])"
  by pat_completeness auto
termination
  by (relation "measure id") auto

fun a2b_base64 :: "string \<Rightarrow> nat \<Rightarrow> nat \<Rightarrow> nat \<Rightarrow> byte list \<Rightarrow> exn + byte list" where
  "a2b_base64 [] q l p out =
     (if q = 0 then Inr out
      else if q = 1 then
        Inl (BinasciiError (''Invalid base64-encoded string: number of data characters (''
               @ dec (length out div 3 * 4 + 1)
               @ '') cannot be 1 more than a multiple of 4''))
      else Inl (BinasciiError ''Incorrect padding''))"
| "a2b_base64 (c # cs) q l p out =
     (if c = CHR ''='' then
        (if 2 \<le> q \<and> 4 \<le> q + (p + 1) then Inr out
         else a2b_base64 cs q l (if 2 \<le> q then p + 1 else p) out)
      else
        (case b64val c of
           None \<Rightarrow> a2b_base64 cs q l p out
         | Some v \<Rightarrow>
             (if q = 0 then a2b_base64 cs 1 v 0 out
              else if q = 1 then a2b_base64 cs 2 (v mod 16) 0 (out @ [of_nat (l * 4 + v div 16)])
              else if q = 2 then a2b_base64 cs 3 (v mod 4) 0 (out @ [of_nat (l * 16 + v div 4)])
              else a2b_base64 cs 0 0 0 (out @ [of_nat (l * 64 + v)]))))"

definition b64decode :: "string \<Rightarrow> exn + byte list" where
  "b64decode s =
     (if list_ex (\<lambda>c. 128 \<le> (of_char c :: nat)) s then Inl ValueError
      else a2b_base64 s 0 0 0 [])"

section \<open>Text and bytes\<close>

definition utf8_encode :: "string \<Rightarrow> byte list" where
  "utf8_encode s = map of_char s"

text \<open>
  Well-formed UTF-8 (RFC 3629, the table the strict \<^verbatim>\<open>utf-8\<close> codec enforces): no
  overlong forms, no surrogates, nothing above U+10FFFF.
\<close>

definition cont :: "byte \<Rightarrow> bool" where
  "cont b = (0x80 \<le> unat b \<and> unat b \<le> 0xBF)"

definition between :: "nat \<Rightarrow> nat \<Rightarrow> byte \<Rightarrow> bool" where
  "between lo hi b = (lo \<le> unat b \<and> unat b \<le> hi)"

fun utf8_valid :: "byte list \<Rightarrow> bool" where
  "utf8_valid [] = True"
| "utf8_valid [a] = (unat a < 0x80)"
| "utf8_valid [a, b] =
     (if unat a < 0x80 then utf8_valid [b] else between 0xC2 0xDF a \<and> cont b)"
| "utf8_valid [a, b, c] =
     (if unat a < 0x80 then utf8_valid [b, c]
      else if between 0xC2 0xDF a then cont b \<and> utf8_valid [c]
      else (a = 0xE0 \<and> between 0xA0 0xBF b \<or> between 0xE1 0xEC a \<and> cont b
            \<or> a = 0xED \<and> between 0x80 0x9F b \<or> between 0xEE 0xEF a \<and> cont b) \<and> cont c)"
| "utf8_valid (a # b # c # d # bs) =
     (if unat a < 0x80 then utf8_valid (b # c # d # bs)
      else if between 0xC2 0xDF a then cont b \<and> utf8_valid (c # d # bs)
      else if between 0xE0 0xEF a then
        (a = 0xE0 \<and> between 0xA0 0xBF b \<or> between 0xE1 0xEC a \<and> cont b
         \<or> a = 0xED \<and> between 0x80 0x9F b \<or> between 0xEE 0xEF a \<and> cont b) \<and> cont c
        \<and> utf8_valid (d # bs)
      else (a = 0xF0 \<and> between 0x90 0xBF b \<or> between 0xF1 0xF3 a \<and> cont b
            \<or> a = 0xF4 \<and> between 0x80 0x8F b) \<and> cont c \<and> cont d \<and> utf8_valid bs)"

definition utf8_decode :: "byte list \<Rightarrow> exn + string" where
  "utf8_decode bs =
     (if utf8_valid bs then Inr (map (\<lambda>b. char_of (unat b)) bs)
      else Inl UnicodeDecodeError)"

text \<open>
  \<^verbatim>\<open>str(e)\<close> for the exceptions that reach a handler printing it. The message of a
  UnicodeDecodeError goes on to name the offending byte and its position; only its fixed
  beginning is kept. The other exceptions are never printed.
\<close>

fun str_exn :: "exn \<Rightarrow> string" where
  "str_exn (BinasciiError m) = m"
| "str_exn ValueError = ''string argument should contain only ASCII characters''"
| "str_exn UnicodeDecodeError = [sq] @ ''utf-8'' @ [sq] @ '' codec can'' @ [sq] @ ''t decode bytes''"
| "str_exn e = []"

text \<open>\<^verbatim>\<open>needle in hay\<close> for two strings or two byte strings.\<close>

fun contains :: "'a list \<Rightarrow> 'a list \<Rightarrow> bool" where
  "contains needle [] = (needle = [])"
| "contains needle (c # cs) = (prefix needle (c # cs) \<or> contains needle cs)"

section \<open>The random module\<close>

text \<open>
  One run of a script draws the raw numbers \<open>rnd 0\<close>, \<open>rnd 1\<close>, ... from its
  generator; a function that draws takes the index of the next draw and returns the index
  after its last one. \<^verbatim>\<open>randbelow(n)\<close> reduces a raw number below \<open>n\<close>,
  \<^verbatim>\<open>randint(lo, hi)\<close> is \<open>lo + randbelow(hi - lo + 1)\<close>, \<^verbatim>\<open>choice(seq)\<close> is
  \<open>seq[randbelow(len(seq))]\<close>, and \<^verbatim>\<open>shuffle\<close> is the library's loop
  \<^verbatim>\<open>for i in reversed(range(1, len(x))): j = randbelow(i + 1); x[i], x[j] = x[j], x[i]\<close>.
\<close>

type_synonym rng = "nat \<Rightarrow> nat"

definition randbelow :: "rng \<Rightarrow> nat \<Rightarrow> nat \<Rightarrow> nat \<times> nat" where
  "randbelow rnd n k = (rnd k mod n, k + 1)"

definition randint :: "rng \<Rightarrow> nat \<Rightarrow> nat \<Rightarrow> nat \<Rightarrow> nat \<times> nat" where
  "randint rnd lo hi k = (lo + fst (randbelow rnd (hi - lo + 1) k), k + 1)"

fun shuffle_loop :: "rng \<Rightarrow> nat \<Rightarrow> 'a list \<Rightarrow> nat \<Rightarrow> 'a list \<times> nat" where
  "shuffle_loop rnd 0 xs k = (xs, k)"
| "shuffle_loop rnd (Suc m) xs k =
     (let i = Suc m; j = fst (randbelow rnd (i + 1) k)
      in shuffle_loop rnd m (xs[i := xs ! j, j := xs ! i]) (k + 1))"

definition shuffle :: "rng \<Rightarrow> 'a list \<Rightarrow> nat \<Rightarrow> 'a list \<times> nat" where
  "shuffle rnd xs k = shuffle_loop rnd (length xs - 1) xs k"

section \<open>pyobf_xor_mashal.py: build_chunk_shuffle_wrapper\<close>

text \<open>
  The splitting loop: \<^verbatim>\<open>while i < L: size = random.randint(max(1, avg//2), max(1, avg*2));
  parts.append(b[i:i+size]); i += size\<close>.
\<close>

function split_loop ::
  "rng \<Rightarrow> byte list \<Rightarrow> nat \<Rightarrow> nat \<Rightarrow> nat \<Rightarrow> nat \<Rightarrow> byte list list \<Rightarrow> byte list list \<times> nat" where
  "split_loop rnd b L avg i k parts =
     (if i < L then
        split_loop rnd b L avg
          (i + fst (randint rnd (max 1 (avg div 2)) (max 1 (avg * 2)) k))
          (snd (randint rnd (max 1 (avg div 2)) (max 1 (avg * 2)) k))
          (parts @ [take (fst (randint rnd (max 1 (avg div 2)) (max 1 (avg * 2)) k)) (drop i b)])
      else (parts, k))"
  by pat_completeness auto
termination
  by (relation "measure (\<lambda>(rnd, b, L, avg, i, k, parts). L - i)")
     (auto simp: randint_def)

text \<open>
  The wrapper text embeds two literals: \<^verbatim>\<open>_pieces\<close>, the base-64 text of every part in
  the order of \<^verbatim>\<open>encoded\<close>, and \<^verbatim>\<open>_order\<close>, the shuffled list of indexes. The function
  returns the pair of them. \<^verbatim>\<open>chunks\<close> below 2 is raised to 2.
\<close>

definition build_chunk_shuffle_wrapper :: "rng \<Rightarrow> string \<Rightarrow> int \<Rightarrow> string list \<times> nat list" where
  "build_chunk_shuffle_wrapper rnd source chunks =
     (let b = utf8_encode source;
          L = length b;
          chunks = (if chunks < 2 then 2 else chunks);
          avg = max 1 (L div nat chunks);
          (parts, k) = split_loop rnd b L avg 0 0 [];
          encoded = map b64encode parts;
          ids = [0 ..< length encoded];
          (shuffled, k') = shuffle rnd ids k
      in (encoded, shuffled))"

text \<open>
  The loader the wrapper carries: \<^verbatim>\<open>_tmp = [None] * len(_pieces)\<close>, then
  \<^verbatim>\<open>for i, idx in enumerate(_order): _tmp[idx] = _pieces[i]\<close>, then
  \<^verbatim>\<open>_b = b''.join(base64.b64decode(x) for x in _tmp)\<close>. An index out of range raises
  IndexError, a slot left \<^verbatim>\<open>None\<close> raises TypeError in \<^verbatim>\<open>b64decode\<close>.
\<close>

fun place_loop :: "string list \<Rightarrow> (nat \<times> nat) list \<Rightarrow> string option list \<Rightarrow> exn + string option list" where
  "place_loop pieces [] tmp = Inr tmp"
| "place_loop pieces ((i, idx) # rest) tmp =
     (if length pieces \<le> i \<or> length tmp \<le> idx then Inl IndexError
      else place_loop pieces rest (tmp[idx := Some (pieces ! i)]))"

fun join_decoded :: "string option list \<Rightarrow> exn + byte list" where
  "join_decoded [] = Inr []"
| "join_decoded (None # xs) = Inl TypeError"
| "join_decoded (Some x # xs) =
     (case b64decode x of
        Inl e \<Rightarrow> Inl e
      | Inr d \<Rightarrow> (case join_decoded xs of Inl e \<Rightarrow> Inl e | Inr ds \<Rightarrow> Inr (d @ ds)))"

definition chunk_loader :: "string list \<Rightarrow> nat list \<Rightarrow> exn + byte list" where
  "chunk_loader pieces order =
     (case place_loop pieces (enumerate 0 order) (replicate (length pieces) None) of
        Inl e \<Rightarrow> Inl e
      | Inr tmp \<Rightarrow> join_decoded tmp)"

section \<open>The zlib module\<close>

text \<open>
  \<^verbatim>\<open>zlib.compress\<close> and \<^verbatim>\<open>zlib.decompress\<close> are parameters of the functions that call
  them. Where a closed example needs an instance, it uses the pair below, which frames
  the data with the two-byte zlib header \<open>78 DA\<close> and rejects every byte string that
  does not start with it.
\<close>

definition framing_compress :: "byte list \<Rightarrow> byte list" where
  "framing_compress bs = [0x78, 0xDA] @ bs"

definition framing_decompress :: "byte list \<Rightarrow> exn + byte list" where
  "framing_decompress bs =
     (if take 2 bs = [0x78, 0xDA] then Inr (drop 2 bs) else Inl ZlibError)"

section \<open>app.py\<close>

definition base64_encode :: "byte list \<Rightarrow> string" where
  "base64_encode data = b64encode data"

text \<open>
  \<^verbatim>\<open>obfuscate_python_code(source_code, use_compression, template)\<close>: the standard loader
  is built first, and replaced when the template is \<^verbatim>\<open>"compact"\<close> or
  \<^verbatim>\<open>"obfuscated"\<close>; any other template name keeps the standard loader.
\<close>

definition obfuscate_python_code ::
  "(byte list \<Rightarrow> byte list) \<Rightarrow> string \<Rightarrow> bool \<Rightarrow> string \<Rightarrow> string" where
  "obfuscate_python_code zlib_compress source_code use_compression template =
     (let source_bytes = utf8_encode source_code;
          b64 = (if use_compression then base64_encode (zlib_compress source_bytes)
                 else base64_encode source_bytes);
          loader =
            (if use_compression then
               ''import base64, zlib\<newline>b = b'' @ tq @ b64 @ tq
               @ ''\<newline>try:\<newline>    src = zlib.decompress(base64.b64decode(b))''
               @ ''\<newline>except Exception:\<newline>    raise SystemExit('' @ [sq]
               @ ''Decoding failed'' @ [sq] @ '')\<newline>exec(src, globals())\<newline>''
             else
               ''import base64, zlib\<newline>b = b'' @ tq @ b64 @ tq
               @ ''\<newline>try:\<newline>    src = base64.b64decode(b)''
               @ ''\<newline>except Exception:\<newline>    raise SystemExit('' @ [sq]
               @ ''Decoding failed'' @ [sq] @ '')\<newline>exec(src, globals())\<newline>'')
      in if template = ''compact'' then
           (if use_compression then
              ''import base64,zlib;exec(zlib.decompress(base64.b64decode(b'' @ tq @ b64 @ tq
              @ '')),globals())''
            else
              ''import base64;exec(base64.b64decode(b'' @ tq @ b64 @ tq @ ''),globals())'')
         else if template = ''obfuscated'' then
           (if use_compression then
              ''import base64,zlib\<newline>_x=b'' @ tq @ b64 @ tq
              @ ''\<newline>_y=base64.b64decode\<newline>_z=zlib.decompress''
              @ ''\<newline>exec(_z(_y(_x)),globals())\<newline>''
            else
              ''import base64\<newline>_x=b'' @ tq @ b64 @ tq
              @ ''\<newline>_y=base64.b64decode\<newline>exec(_y(_x),globals())\<newline>'')
         else loader)"

text \<open>
  \<^verbatim>\<open>re.search(r'b"""([A-Za-z0-9+/=\n]+)"""', text)\<close>: the leftmost position where
  \<^verbatim>\<open>b"""\<close>, a non-empty run of characters of the class and \<^verbatim>\<open>"""\<close> follow one another;
  the result is group 1. The class does not hold the quote, so the run the pattern takes
  is the longest one: after a shorter run the next character is of the class, not a quote.
\<close>

definition b64_digit :: "char \<Rightarrow> bool" where
  "b64_digit c = (b64val c \<noteq> None)"

definition b64_class :: "char \<Rightarrow> bool" where
  "b64_class c = (b64_digit c \<or> c = CHR ''='' \<or> c = nl)"

definition match_here :: "string \<Rightarrow> string option" where
  "match_here s =
     (if prefix (CHR ''b'' # tq) s then
        (let body = takeWhile b64_class (drop 4 s);
             rest = dropWhile b64_class (drop 4 s)
         in if body \<noteq> [] \<and> prefix tq rest then Some body else None)
      else None)"

fun re_search :: "string \<Rightarrow> string option" where
  "re_search [] = None"
| "re_search (c # cs) =
     (case match_here (c # cs) of Some g \<Rightarrow> Some g | None \<Rightarrow> re_search cs)"

text \<open>
  \<^verbatim>\<open>deobfuscate_python_code(obfuscated_code)\<close>. Every exception raised in the outer
  \<^verbatim>\<open>try\<close> becomes the returned text \<^verbatim>\<open>"Error during deobfuscation: " + str(e)\<close>; the
  inner \<^verbatim>\<open>try\<close> around the decompression has a bare \<^verbatim>\<open>except: pass\<close>, after which the
  function goes on to \<^verbatim>\<open>return decoded.decode('utf-8')\<close>.
\<close>

definition error_during :: "exn \<Rightarrow> string" where
  "error_during e = ''Error during deobfuscation: '' @ str_exn e"

definition decode_plain :: "byte list \<Rightarrow> string" where
  "decode_plain decoded =
     (case utf8_decode decoded of Inr text \<Rightarrow> text | Inl e \<Rightarrow> error_during e)"

definition deobfuscate_python_code ::
  "(byte list \<Rightarrow> exn + byte list) \<Rightarrow> string \<Rightarrow> string" where
  "deobfuscate_python_code zlib_decompress obfuscated_code =
     (case re_search obfuscated_code of
        None \<Rightarrow> ''Error: Could not find Base64 encoded data in the file''
      | Some group1 \<Rightarrow>
          (let b64_data = filter (\<lambda>c. c \<noteq> nl) group1 in
           case b64decode b64_data of
             Inl e \<Rightarrow> error_during e
           | Inr decoded \<Rightarrow>
               (if contains (utf8_encode ''zlib.decompress'') (utf8_encode obfuscated_code)
                   \<or> contains (utf8_encode ''_z=zlib.decompress'') (utf8_encode obfuscated_code)
                then
                  (case zlib_decompress decoded of
                     Inl e \<Rightarrow> decode_plain decoded
                   | Inr decompressed \<Rightarrow>
                       (case utf8_decode decompressed of
                          Inr text \<Rightarrow> text
                        | Inl e \<Rightarrow> decode_plain decoded))
                else decode_plain decoded)))"

text \<open>The caller tells a failure from a recovered text by \<^verbatim>\<open>deobfuscated.startswith("Error")\<close>.\<close>

definition is_error_result :: "string \<Rightarrow> bool" where
  "is_error_result r = prefix ''Error'' r"

section \<open>pyobf.py: the syntax tree\<close>

text \<open>
  The nodes of Python's \<^verbatim>\<open>ast\<close> module that the two transformers treat specially, and
  \<open>Node\<close> for every other class: its class name and its child nodes in field order
  (fields that hold no node are left out; no transformer changes them). \<open>Arguments\<close>
  holds \<^verbatim>\<open>posonlyargs\<close>, \<^verbatim>\<open>args\<close> and then the remaining children (\<^verbatim>\<open>vararg\<close>,
  \<^verbatim>\<open>kwonlyargs\<close>, \<^verbatim>\<open>kw_defaults\<close>, \<^verbatim>\<open>kwarg\<close>, \<^verbatim>\<open>defaults\<close>); \<open>FunctionDef\<close> holds
  the name, \<^verbatim>\<open>args\<close>, \<^verbatim>\<open>body\<close> and then \<^verbatim>\<open>decorator_list\<close> and \<^verbatim>\<open>returns\<close>; \<open>ClassDef\<close>
  holds the name, \<^verbatim>\<open>bases\<close> and \<^verbatim>\<open>keywords\<close>, \<^verbatim>\<open>body\<close>, \<^verbatim>\<open>decorator_list\<close>; \<open>Arg\<close> holds
  the name and the optional annotation as a list of at most one node.
\<close>

datatype expr_context = Load | Store | Del | Param

datatype const_value = CStr string | CBytes "byte list" | CInt int | CBool bool | CNone

datatype ast =
    Name string expr_context
  | Attribute ast string expr_context
  | Constant const_value
  | Arg string "ast list"
  | Arguments "ast list" "ast list" "ast list"
  | FunctionDef string ast "ast list" "ast list"
  | ClassDef string "ast list" "ast list" "ast list"
  | Assign "ast list" ast
  | Node string "ast list"

section \<open>pyobf.py: Renamer\<close>

text \<open>
  \<^verbatim>\<open>rand_ident(n)\<close>: an underscore and \<open>n\<close> characters chosen from
  \<^verbatim>\<open>string.ascii_letters + string.digits\<close>.
\<close>

definition ident_chars :: string where
  "ident_chars = ''abcdefghijklmnopqrstuvwxyzABCDEFGHIJKLMNOPQRSTUVWXYZ0123456789''"

definition rand_ident :: "rng \<Rightarrow> nat \<Rightarrow> nat \<Rightarrow> string \<times> nat" where
  "rand_ident rnd n k =
     (CHR ''_'' # map (\<lambda>i. ident_chars ! fst (randbelow rnd (length ident_chars) (k + i))) [0 ..< n],
      k + n)"

text \<open>
  A \<^verbatim>\<open>Scope\<close> has its set \<^verbatim>\<open>defined\<close> and its dictionary \<^verbatim>\<open>renames\<close>; the chain of
  \<^verbatim>\<open>parent\<close> links is the list of enclosing scopes, nearest first. The state of a
  \<^verbatim>\<open>Renamer\<close> is its current scope, that chain, and the index of the next random draw.
  \<^verbatim>\<open>self.builtins\<close> is fixed when the Renamer is created and is a parameter \<open>B\<close> here.
\<close>

record scope =
  defined :: "string set"
  renames :: "string \<rightharpoonup> string"

record renamer =
  cur :: scope
  parents :: "scope list"
  next_draw :: nat

definition empty_scope :: scope where
  "empty_scope = \<lparr>defined = {}, renames = Map.empty\<rparr>"

definition init_renamer :: renamer where
  "init_renamer = \<lparr>cur = empty_scope, parents = [], next_draw = 0\<rparr>"

definition push_scope :: "renamer \<Rightarrow> renamer" where
  "push_scope st = st\<lparr>cur := empty_scope, parents := cur st # parents st\<rparr>"

text \<open>Every \<^verbatim>\<open>pop_scope\<close> follows its \<^verbatim>\<open>push_scope\<close>, so the chain is not empty there.\<close>

definition pop_scope :: "renamer \<Rightarrow> renamer" where
  "pop_scope st =
     (case parents st of [] \<Rightarrow> st | p # ps \<Rightarrow> st\<lparr>cur := p, parents := ps\<rparr>)"

definition new_name :: "rng \<Rightarrow> string \<Rightarrow> renamer \<Rightarrow> string \<times> renamer" where
  "new_name rnd old st =
     (case renames (cur st) old of
        Some n \<Rightarrow> (n, st)
      | None \<Rightarrow>
          (let (n, k) = rand_ident rnd 8 (next_draw st)
           in (n, st\<lparr>cur := (cur st)\<lparr>renames := (renames (cur st))(old \<mapsto> n)\<rparr>, next_draw := k\<rparr>)))"

definition add_defined :: "string \<Rightarrow> renamer \<Rightarrow> renamer" where
  "add_defined n st = st\<lparr>cur := (cur st)\<lparr>defined := insert n (defined (cur st))\<rparr>\<rparr>"

fun lookup_chain :: "scope list \<Rightarrow> string \<Rightarrow> string option" where
  "lookup_chain [] n = None"
| "lookup_chain (s # ss) n =
     (case renames s n of Some r \<Rightarrow> Some r | None \<Rightarrow> lookup_chain ss n)"

text \<open>
  The guarded renaming of a definition site, as \<^verbatim>\<open>visit_FunctionDef\<close>, \<^verbatim>\<open>visit_ClassDef\<close>
  and \<^verbatim>\<open>visit_Assign\<close> write it:
  \<^verbatim>\<open>if n not in self.builtins and not n.startswith('__'): self.scope.defined.add(n); ... = self._new_name(n)\<close>.
\<close>

definition define_name :: "string set \<Rightarrow> rng \<Rightarrow> string \<Rightarrow> renamer \<Rightarrow> string \<times> renamer" where
  "define_name B rnd n st =
     (if n \<notin> B \<and> \<not> prefix ''__'' n then new_name rnd n (add_defined n st) else (n, st))"

text \<open>
  The loop of \<^verbatim>\<open>visit_FunctionDef\<close> over \<^verbatim>\<open>node.args.args\<close>:
  \<^verbatim>\<open>if arg.arg not in self.builtins: self.scope.defined.add(arg.arg); arg.arg = self._new_name(arg.arg)\<close>.
\<close>

fun rename_args :: "string set \<Rightarrow> rng \<Rightarrow> ast list \<Rightarrow> renamer \<Rightarrow> ast list \<times> renamer" where
  "rename_args B rnd [] st = ([], st)"
| "rename_args B rnd (Arg n ann # as) st =
     (if n \<notin> B then
        (let (n', st1) = new_name rnd n (add_defined n st);
             (as', st2) = rename_args B rnd as st1
         in (Arg n' ann # as', st2))
      else
        (let (as', st2) = rename_args B rnd as st in (Arg n ann # as', st2)))"
| "rename_args B rnd (a # as) st =
     (let (as', st2) = rename_args B rnd as st in (a # as', st2))"

text \<open>The loop of \<^verbatim>\<open>visit_Assign\<close> over \<^verbatim>\<open>node.targets\<close>, which renames the targets that are names.\<close>

fun rename_targets :: "string set \<Rightarrow> rng \<Rightarrow> ast list \<Rightarrow> renamer \<Rightarrow> ast list \<times> renamer" where
  "rename_targets B rnd [] st = ([], st)"
| "rename_targets B rnd (Name n ctx # ts) st =
     (let (n', st1) = define_name B rnd n st;
          (ts', st2) = rename_targets B rnd ts st1
      in (Name n' ctx # ts', st2))"
| "rename_targets B rnd (t # ts) st =
     (let (ts', st2) = rename_targets B rnd ts st in (t # ts', st2))"

lemma size_rename_args [simp]:
  "size_list size (fst (rename_args B rnd as st)) = size_list size as"
  by (induction B rnd as st rule: rename_args.induct) (auto split: prod.splits)

lemma size_rename_targets [simp]:
  "size_list size (fst (rename_targets B rnd ts st)) = size_list size ts"
  by (induction B rnd ts st rule: rename_targets.induct) (auto split: prod.splits)

text \<open>
  \<^verbatim>\<open>NodeTransformer.visit\<close> with the Renamer's \<^verbatim>\<open>visit_*\<close> methods, and \<^verbatim>\<open>generic_visit\<close>
  for every other class, which visits the child nodes in field order. \<^verbatim>\<open>visit_arg\<close>
  and \<^verbatim>\<open>visit_Name\<close> do not visit children; \<^verbatim>\<open>visit_Attribute\<close> visits the value only.
  The \<^verbatim>\<open>args\<close> of a function definition is an \<^verbatim>\<open>arguments\<close> node and its \<^verbatim>\<open>args\<close> are
  \<^verbatim>\<open>arg\<close> nodes in every tree the parser builds; on any other node the loops change nothing.
\<close>

function visit :: "string set \<Rightarrow> rng \<Rightarrow> ast \<Rightarrow> renamer \<Rightarrow> ast \<times> renamer"
  and visit_list :: "string set \<Rightarrow> rng \<Rightarrow> ast list \<Rightarrow> renamer \<Rightarrow> ast list \<times> renamer" where
  "visit B rnd (Name n ctx) st =
     (if ctx = Store \<or> ctx = Param then (Name n ctx, st)
      else (case lookup_chain (cur st # parents st) n of
              Some r \<Rightarrow> (Name r ctx, st)
            | None \<Rightarrow> (Name n ctx, st)))"
| "visit B rnd (Attribute v attr ctx) st =
     (let (v', st1) = visit B rnd v st in (Attribute v' attr ctx, st1))"
| "visit B rnd (Constant c) st = (Constant c, st)"
| "visit B rnd (Arg n ann) st =
     (if n \<notin> B \<and> \<not> prefix ''__'' n then
        (let (n', st1) = new_name rnd n st in (Arg n' ann, st1))
      else (Arg n ann, st))"
| "visit B rnd (Arguments posonly args others) st =
     (let (posonly', st1) = visit_list B rnd posonly st;
          (args', st2) = visit_list B rnd args st1;
          (others', st3) = visit_list B rnd others st2
      in (Arguments posonly' args' others', st3))"
| "visit B rnd (FunctionDef name args body tail) st =
     (let (name', st1) = define_name B rnd name st;
          st2 = push_scope st1;
          (args1, st3) =
            (case args of
               Arguments posonly as others \<Rightarrow>
                 (let (as', st') = rename_args B rnd as st2 in (Arguments posonly as' others, st'))
             | _ \<Rightarrow> (args, st2));
          (args2, st4) = visit B rnd args1 st3;
          (body', st5) = visit_list B rnd body st4;
          (tail', st6) = visit_list B rnd tail st5
      in (FunctionDef name' args2 body' tail', pop_scope st6))"
| "visit B rnd (ClassDef name heads body tail) st =
     (let (name', st1) = define_name B rnd name st;
          st2 = push_scope st1;
          (heads', st3) = visit_list B rnd heads st2;
          (body', st4) = visit_list B rnd body st3;
          (tail', st5) = visit_list B rnd tail st4
      in (ClassDef name' heads' body' tail', pop_scope st5))"
| "visit B rnd (Assign targets val) st =
     (let (targets1, st1) = rename_targets B rnd targets st;
          (targets2, st2) = visit_list B rnd targets1 st1;
          (val', st3) = visit B rnd val st2
      in (Assign targets2 val', st3))"
| "visit B rnd (Node k cs) st =
     (let (cs', st1) = visit_list B rnd cs st in (Node k cs', st1))"
| "visit_list B rnd [] st = ([], st)"
| "visit_list B rnd (t # ts) st =
     (let (t', st1) = visit B rnd t st;
          (ts', st2) = visit_list B rnd ts st1
      in (t' # ts', st2))"
  by pat_completeness auto
termination
  apply (relation "measure (\<lambda>x. case x of Inl (B, rnd, t, st) \<Rightarrow> size t
                                       | Inr (B, rnd, ts, st) \<Rightarrow> size_list size ts)")
  apply (auto split: ast.splits prod.splits
               dest: arg_cong [where f = "\<lambda>p. size_list size (fst p)"])
  done

section \<open>pyobf.py: StringEncoder\<close>







section \<open>Example inputs\<close>


definition zero_draws :: rng where
  "zero_draws k = 0"

definition counting_draws :: rng where
  "counting_draws k = k"

definition some_builtins :: "string set" where
  "some_builtins =
     {''print'', ''len'', ''True'', ''False'', ''None'', ''__name__'', ''__file__'',
      ''__package__''}"

section \<open>Notions used to state the properties\<close>

text \<open>The base-64 text that \<open>obfuscate_python_code\<close> embeds (its variable \<^verbatim>\<open>b64\<close>).\<close>

definition payload_text :: "(byte list \<Rightarrow> byte list) \<Rightarrow> string \<Rightarrow> bool \<Rightarrow> string" where
  "payload_text zc src cmp =
     base64_encode (if cmp then zc (utf8_encode src) else utf8_encode src)"

text \<open>
  A loader of the standard compressed form whose literal holds the base-64 text of the
  plain bytes \<^verbatim>\<open>hello\<close>, which are not a zlib stream.
\<close>

definition tampered_artifact :: string where
  "tampered_artifact =
     ''import base64, zlib\<newline>b = b'' @ tq @ ''aGVsbG8='' @ tq
     @ ''\<newline>try:\<newline>    src = zlib.decompress(base64.b64decode(b))''
     @ ''\<newline>except Exception:\<newline>    raise SystemExit('' @ [sq]
     @ ''Decoding failed'' @ [sq] @ '')\<newline>exec(src, globals())\<newline>''"

text \<open>The index of the first character of the literal: just after the first \<^verbatim>\<open>b"""\<close>.\<close>

fun literal_start :: "string \<Rightarrow> nat" where
  "literal_start [] = 0"
| "literal_start (c # cs) =
     (if prefix (CHR ''b'' # tq) (c # cs) then 4 else Suc (literal_start cs))"






section \<open>The loaders of pyobf.py and pyobf_xor_mashal.py\<close>

text \<open>
  \<^verbatim>\<open>repr(s)\<close> for a \<^verbatim>\<open>str\<close> of base-64 characters, the only strings it is applied to
  here: the text between single quotes (nothing in it needs an escape).
\<close>

definition py_repr :: "string \<Rightarrow> string" where
  "py_repr s = [sq] @ s @ [sq]"

definition compress_b64 :: "(byte list \<Rightarrow> byte list) \<Rightarrow> byte list \<Rightarrow> string" where
  "compress_b64 zlib_compress s = b64encode (zlib_compress s)"

definition make_simple_wrapper :: "(byte list \<Rightarrow> byte list) \<Rightarrow> string \<Rightarrow> string" where
  "make_simple_wrapper zlib_compress source =
     (let compressed = compress_b64 zlib_compress (utf8_encode source)
      in ''# Obfuscated by pyobf (simple mode)\<newline>import base64, zlib, types, sys''
         @ ''\<newline>_payload = '' @ py_repr compressed
         @ ''\<newline>_data = zlib.decompress(base64.b64decode(_payload))''
         @ ''\<newline># execute the code in a fresh globals dict to avoid leaking into wrapper scope''
         @ ''\<newline>_g = {}\<newline>exec(compile(_data.decode('' @ [sq] @ ''utf-8'' @ [sq]
         @ ''), '' @ [sq] @ ''<obf>'' @ [sq] @ '', '' @ [sq] @ ''exec'' @ [sq]
         @ ''), _g)\<newline>'')"

text \<open>
  \<^verbatim>\<open>make_random_ident(n)\<close>: an underscore and \<open>n\<close> characters chosen from
  \<^verbatim>\<open>string.ascii_lowercase\<close>.
\<close>

definition ascii_lowercase :: string where
  "ascii_lowercase = ''abcdefghijklmnopqrstuvwxyz''"

definition make_random_ident :: "rng \<Rightarrow> nat \<Rightarrow> nat \<Rightarrow> string \<times> nat" where
  "make_random_ident rnd n k =
     (CHR ''_'' # map (\<lambda>i. ascii_lowercase ! fst (randbelow rnd (length ascii_lowercase) (k + i)))
                    [0 ..< n],
      k + n)"

text \<open>
  \<^verbatim>\<open>build_marshal_xor_wrapper(source, key_len)\<close>. Compiling the source and marshalling the
  code object (\<open>compile_marshal\<close>, which raises on a source that does not compile) and
  \<^verbatim>\<open>secrets.token_bytes\<close> are parameters.
\<close>

definition build_marshal_xor_wrapper ::
  "(string \<Rightarrow> exn + byte list) \<Rightarrow> (nat \<Rightarrow> byte list) \<Rightarrow> rng \<Rightarrow> string \<Rightarrow> nat \<Rightarrow> exn + string" where
  "build_marshal_xor_wrapper compile_marshal token_bytes rnd source key_len =
     (case compile_marshal source of
        Inl e \<Rightarrow> Inl e
      | Inr marshalled \<Rightarrow>
          (let key = token_bytes key_len in
           case xor_bytes marshalled key of
             Inl e \<Rightarrow> Inl e
           | Inr xored \<Rightarrow>
               (let b64_payload = b64encode xored;
                    b64_key = b64encode key;
                    loader_name = fst (make_random_ident rnd 8 0)
                in Inr (''# Obfuscated by pyobf_xor_marshal (marshal_xor mode)''
                        @ ''\<newline>import base64, marshal\<newline>def '' @ loader_name @ ''():''
                        @ ''\<newline>    _k = base64.b64decode('' @ py_repr b64_key @ '')''
                        @ ''\<newline>    _p = base64.b64decode('' @ py_repr b64_payload @ '')''
                        @ ''\<newline>    # xor back\<newline>    _d = bytearray(len(_p))''
                        @ ''\<newline>    for i, b in enumerate(_p):''
                        @ ''\<newline>        _d[i] = b ^ _k[i % len(_k)]''
                        @ ''\<newline>    _code = marshal.loads(bytes(_d))''
                        @ ''\<newline>    exec(_code, {})\<newline>'' @ loader_name @ ''()\<newline>''))))"

text \<open>
  What a loader text passes to \<^verbatim>\<open>exec\<close> as the environment: the last argument of its first
  call \<^verbatim>\<open>exec(...)\<close>, where \<^verbatim>\<open>exec\<close> is a name of its own (not the end of a longer
  identifier). The arguments are split at the commas outside every inner parenthesis;
  the loaders have no parenthesis or comma inside a string literal.
\<close>

definition ident_char :: "char \<Rightarrow> bool" where
  "ident_char c =
     (let n = (of_char c :: nat)
      in 65 \<le> n \<and> n \<le> 90 \<or> 97 \<le> n \<and> n \<le> 122 \<or> 48 \<le> n \<and> n \<le> 57 \<or> n = 95)"

fun scan_args :: "string \<Rightarrow> nat \<Rightarrow> string \<Rightarrow> string option" where
  "scan_args [] d arg = None"
| "scan_args (c # cs) d arg =
     (if c = CHR ''('' then scan_args cs (Suc d) (arg @ [c])
      else if c = CHR '')'' then
        (if d = 0 then Some arg else scan_args cs (d - 1) (arg @ [c]))
      else if c = CHR '','' \<and> d = 0 then scan_args cs 0 []
      else scan_args cs d (arg @ [c]))"

fun exec_env_from :: "char \<Rightarrow> string \<Rightarrow> string option" where
  "exec_env_from prev [] = None"
| "exec_env_from prev (c # cs) =
     (if prefix ''exec('' (c # cs) \<and> \<not> ident_char prev
      then map_option (dropWhile (\<lambda>c. c = CHR '' '')) (scan_args (drop 5 (c # cs)) 0 [])
      else exec_env_from c cs)"

definition exec_env :: "string \<Rightarrow> string option" where
  "exec_env text = exec_env_from nl text"

text \<open>Stand-ins for the compiler and the key source in closed examples.\<close>

definition sample_marshal :: "string \<Rightarrow> exn + byte list" where
  "sample_marshal source = (if source = [] then Inl SyntaxError else Inr (utf8_encode source))"

definition sample_key :: "nat \<Rightarrow> byte list" where
  "sample_key n = map of_nat [0 ..< n]"

text \<open>A character that neither opens or closes a parenthesis nor separates arguments.\<close>

definition arg_char :: "char \<Rightarrow> bool" where
  "arg_char c = (c \<noteq> CHR ''('' \<and> c \<noteq> CHR '')'' \<and> c \<noteq> CHR '','')"

text \<open>
  The code units of one character that is outside the base-64 alphabet: a single unit that
  is neither a digit of the alphabet nor the padding sign, or the two to four units of a
  character beyond ASCII, each of them 0x80 or more. \<open>replace_char\<close> puts such a
  character in the place of the (one-unit) character at index \<open>k\<close>.
\<close>

definition outside_alphabet :: "string \<Rightarrow> bool" where
  "outside_alphabet u =
     (case u of
        [] \<Rightarrow> False
      | [c] \<Rightarrow> b64val c = None \<and> c \<noteq> CHR ''=''
      | _ \<Rightarrow> list_all (\<lambda>c. 128 \<le> (of_char c :: nat)) u)"

definition replace_char :: "string \<Rightarrow> nat \<Rightarrow> string \<Rightarrow> string" where
  "replace_char text k u = take k text @ u @ drop (Suc k) text"

section \<open>Properties of xor_bytes\<close>

lemma xor_loop_nonempty:
  "key \<noteq> [] \<Longrightarrow> i + length bs = length out \<Longrightarrow>
   xor_loop key (length key) bs i out =
     Inr (take i out @ map (\<lambda>(j, b). b XOR key ! (j mod length key)) (enumerate i bs))"
proof (induction bs arbitrary: i out)
  case Nil
  then show ?case by simp
next
  case (Cons b bs)
  have len: "Suc i + length bs = length (out[i := b XOR key ! (i mod length key)])"
    using Cons.prems by simp
  have lt: "i < length out" using Cons.prems by simp
  show ?case
    using Cons.prems Cons.IH [OF Cons.prems(1) len] lt
    by (simp add: take_Suc_conv_app_nth)
qed

lemma xor_bytes_nonempty:
  "key \<noteq> [] \<Longrightarrow>
   xor_bytes data key = Inr (map (\<lambda>(j, b). b XOR key ! (j mod length key)) (enumerate 0 data))"
  by (simp add: xor_bytes_def xor_loop_nonempty)

lemma xor_twice_pointwise:
  "map (\<lambda>(j, b). b XOR key ! (j mod n))
     (enumerate i (map (\<lambda>(j, b). b XOR key ! (j mod n)) (enumerate i bs))) = (bs :: byte list)"
proof (induction bs arbitrary: i)
  case Nil
  then show ?case by simp
next
  case (Cons b bs)
  have "(b XOR key ! (i mod n)) XOR key ! (i mod n) = b"
    by (simp add: xor.assoc)
  then show ?case using Cons.IH [of "Suc i"] by simp
qed

text \<open>
  C8. XOR with a cyclically repeated key is self-inverse: for every byte sequence \<open>B\<close> and
  every non-empty key \<open>K\<close>, \<open>xor_bytes B K\<close> returns some \<open>X\<close>, and \<open>xor_bytes X K\<close>
  returns \<open>B\<close> again.
\<close>

theorem xor_bytes_self_inverse:
  "K \<noteq> [] \<Longrightarrow> \<exists>X. xor_bytes B K = Inr X \<and> xor_bytes X K = Inr B"
  by (simp add: xor_bytes_nonempty xor_twice_pointwise)

theorem xor_bytes_self_inverse_witness:
  "[7, 9] \<noteq> ([] :: byte list) \<and>
   (\<exists>X. xor_bytes [1, 2, 3] [7, 9] = Inr X \<and> xor_bytes X [7, 9] = Inr [1, 2, 3])"
  using xor_bytes_self_inverse [of "[7, 9]" "[1, 2, 3]"] by simp

text \<open>
  C10. \<open>xor_bytes\<close> is total only for a non-empty key: with a non-empty key it returns a
  byte string as long as the data; with the empty key and non-empty data the first
  \<^verbatim>\<open>i % klen\<close> raises ZeroDivisionError and nothing is returned.
\<close>

theorem xor_bytes_total_iff_key:
  "(K \<noteq> [] \<longrightarrow> (\<exists>out. xor_bytes B K = Inr out \<and> length out = length B)) \<and>
   (B \<noteq> [] \<longrightarrow> xor_bytes B [] = Inl ZeroDivisionError)"
proof (intro conjI impI)
  assume "K \<noteq> []"
  then show "\<exists>out. xor_bytes B K = Inr out \<and> length out = length B"
    by (simp add: xor_bytes_nonempty)
next
  assume "B \<noteq> []"
  then obtain b bs where "B = b # bs" by (cases B) auto
  then show "xor_bytes B [] = Inl ZeroDivisionError"
    by (simp add: xor_bytes_def)
qed

theorem xor_bytes_total_iff_key_witness:
  "(\<exists>out. xor_bytes [1, 2, 3] [7, 9] = Inr out \<and> length out = length [1, 2, 3 :: byte]) \<and>
   xor_bytes [1, 2, 3] [] = Inl ZeroDivisionError"
  using xor_bytes_total_iff_key [of "[7, 9]" "[1, 2, 3]"] by simp

section \<open>Properties of StringEncoder\<close>





section \<open>Properties of build_chunk_shuffle_wrapper\<close>

text \<open>
  C1 (failing input). For the source \<^verbatim>\<open>ab\<close> and two chunks, with every raw draw 0, the
  parts are \<^verbatim>\<open>a\<close> and \<^verbatim>\<open>b\<close>, \<^verbatim>\<open>_pieces\<close> lists them in their original order and
  \<^verbatim>\<open>_order\<close> is \<open>[1, 0]\<close>; the loader puts piece 0 in slot 1 and piece 1 in slot 0 and
  rebuilds \<^verbatim>\<open>ba\<close>.
\<close>

theorem chunk_shuffle_scrambles:
  "build_chunk_shuffle_wrapper zero_draws ''ab'' 2 = ([''YQ=='', ''Yg==''], [1, 0]) \<and>
   chunk_loader [''YQ=='', ''Yg==''] [1, 0] = Inr (utf8_encode ''ba'') \<and>
   utf8_encode ''ba'' \<noteq> utf8_encode ''ab''"
  by code_simp

section \<open>Properties of Renamer\<close>

text \<open>
  C6 (failing input). In \<^verbatim>\<open>def f(__x): return __x\<close> the parameter \<^verbatim>\<open>__x\<close> is renamed by
  the loop of \<^verbatim>\<open>visit_FunctionDef\<close>, which tests only \<^verbatim>\<open>self.builtins\<close>, and the
  reference in the body follows it.
\<close>

theorem dunder_parameter_renamed:
  "fst (visit some_builtins counting_draws
          (Node ''Module''
             [FunctionDef ''f'' (Arguments [] [Arg ''__x'' []] [])
                [Node ''Return'' [Name ''__x'' Load]] []])
          init_renamer)
   = Node ''Module''
       [FunctionDef ''_abcdefgh'' (Arguments [] [Arg ''_qrstuvwx'' []] [])
          [Node ''Return'' [Name ''_ijklmnop'' Load]] []]"
  by code_simp

section \<open>Properties of app.py\<close>

lemma not_class_dq [simp]: "\<not> b64_class dq"
  by (simp add: b64_class_def b64_digit_def b64val_def)

lemma match_here_Nil [simp]: "match_here [] = None"
  by (simp add: match_here_def)

lemma match_here_not_b [simp]: "c \<noteq> CHR ''b'' \<Longrightarrow> match_here (c # r) = None"
  by (simp add: match_here_def)

lemma match_here_b_not_dq: "d \<noteq> dq \<Longrightarrow> match_here (c # d # r) = None"
  by (simp add: match_here_def)

lemma match_here_single [simp]: "match_here [c] = None"
  by (simp add: match_here_def)

lemma match_here_open:
  "match_here (CHR ''b'' # dq # dq # dq # R) =
     (if takeWhile b64_class R \<noteq> [] \<and> prefix tq (dropWhile b64_class R)
      then Some (takeWhile b64_class R) else None)"
  by (simp add: match_here_def Let_def)

lemma prefix_tq_dq: "prefix tq xs \<Longrightarrow> dq \<in> set xs"
  by (auto simp: prefix_def)

lemma re_search_skip:
  "dq \<notin> set A \<Longrightarrow>
   re_search (A @ B) =
     (if A \<noteq> [] \<and> last A = CHR ''b''
      then (case match_here (CHR ''b'' # B) of Some g \<Rightarrow> Some g | None \<Rightarrow> re_search B)
      else re_search B)"
proof (induction A)
  case Nil
  then show ?case by simp
next
  case (Cons a A)
  show ?case
  proof (cases A)
    case Nil
    then show ?thesis by (simp add: match_here_not_b)
  next
    case (Cons a' A')
    with Cons.prems have "a' \<noteq> dq" by auto
    then have "match_here (a # A @ B) = None"
      using Cons by (simp add: match_here_b_not_dq)
    then show ?thesis using Cons.IH Cons.prems Cons by simp
  qed
qed

lemma re_search_no_dq: "dq \<notin> set A \<Longrightarrow> re_search A = None"
  using re_search_skip [of A "[]"] by simp

lemma match_here_tail_no_dq:
  "dq \<notin> set post \<Longrightarrow> match_here (CHR ''b'' # dq # dq # dq # post) = None"
proof -
  assume a: "dq \<notin> set post"
  have "set (dropWhile b64_class post) \<subseteq> set post" by (auto dest: set_dropWhileD)
  then have "dq \<notin> set (dropWhile b64_class post)" using a by auto
  then have "\<not> prefix tq (dropWhile b64_class post)"
    using prefix_tq_dq by blast
  then show ?thesis by (simp add: match_here_open)
qed

lemma re_search_closing:
  "dq \<notin> set D \<Longrightarrow> dq \<notin> set post \<Longrightarrow> re_search (D @ dq # dq # dq # post) = None"
  by (simp add: re_search_skip match_here_tail_no_dq re_search_no_dq)

lemma class_no_dq: "list_all b64_class D \<Longrightarrow> dq \<notin> set D"
  by (auto simp: list_all_iff)

lemma takeWhile_class:
  "list_all b64_class D \<Longrightarrow> \<not> b64_class c \<Longrightarrow> takeWhile b64_class (D @ c # R) = D"
  by (induction D) auto

lemma dropWhile_class:
  "list_all b64_class D \<Longrightarrow> \<not> b64_class c \<Longrightarrow> dropWhile b64_class (D @ c # R) = c # R"
  by (induction D) auto

lemma re_search_block:
  assumes "dq \<notin> set pre" "dq \<notin> set post" "list_all b64_class D"
  shows "re_search (pre @ CHR ''b'' # dq # dq # dq # D @ dq # dq # dq # post)
           = (if D = [] then None else Some D)"
proof -
  have nd: "dq \<notin> set D" using assms(3) by (rule class_no_dq)
  have pre: "dq \<notin> set (pre @ [CHR ''b''])" using assms(1) by simp
  have m: "match_here (CHR ''b'' # dq # dq # dq # D @ dq # dq # dq # post)
             = (if D = [] then None else Some D)"
    using assms(3) by (simp add: match_here_open takeWhile_class dropWhile_class)
  have r: "re_search (dq # dq # dq # D @ dq # dq # dq # post) = None"
    using nd assms(2) by (simp add: re_search_closing)
  have "re_search ((pre @ [CHR ''b'']) @ dq # dq # dq # D @ dq # dq # dq # post)
          = (if D = [] then None else Some D)"
    unfolding re_search_skip [OF pre] using m r by (cases D) simp_all
  then show ?thesis by simp
qed

lemma obfuscate_shape:
  "\<exists>pre post. dq \<notin> set pre \<and> dq \<notin> set post \<and>
     obfuscate_python_code zc src cmp template
       = pre @ CHR ''b'' # dq # dq # dq # payload_text zc src cmp @ dq # dq # dq # post"
proof (cases cmp)
  case True
  show ?thesis
  proof (cases "template = ''compact''")
    case c: True
    show ?thesis
      apply (rule exI [of _ "''import base64,zlib;exec(zlib.decompress(base64.b64decode(''"])
      apply (rule exI [of _ "'')),globals())''"])
      using True c apply (simp add: obfuscate_python_code_def payload_text_def Let_def)
      done
  next
    case nc: False
    show ?thesis
    proof (cases "template = ''obfuscated''")
      case o: True
      show ?thesis
        apply (rule exI [of _ "''import base64,zlib\<newline>_x=''"])
        apply (rule exI [of _ "''\<newline>_y=base64.b64decode\<newline>_z=zlib.decompress\<newline>exec(_z(_y(_x)),globals())\<newline>''"])
        using True o apply (simp add: obfuscate_python_code_def payload_text_def Let_def)
        done
    next
      case no: False
      show ?thesis
        apply (rule exI [of _ "''import base64, zlib\<newline>b = ''"])
        apply (rule exI [of _ "''\<newline>try:\<newline>    src = zlib.decompress(base64.b64decode(b))\<newline>except Exception:\<newline>    raise SystemExit('' @ [sq] @ ''Decoding failed'' @ [sq] @ '')\<newline>exec(src, globals())\<newline>''"])
        using True nc no apply (simp add: obfuscate_python_code_def payload_text_def Let_def)
        done
    qed
  qed
next
  case False
  show ?thesis
  proof (cases "template = ''compact''")
    case c: True
    show ?thesis
      apply (rule exI [of _ "''import base64;exec(base64.b64decode(''"])
      apply (rule exI [of _ "''),globals())''"])
      using False c apply (simp add: obfuscate_python_code_def payload_text_def Let_def)
      done
  next
    case nc: False
    show ?thesis
    proof (cases "template = ''obfuscated''")
      case o: True
      show ?thesis
        apply (rule exI [of _ "''import base64\<newline>_x=''"])
        apply (rule exI [of _ "''\<newline>_y=base64.b64decode\<newline>exec(_y(_x),globals())\<newline>''"])
        using False o apply (simp add: obfuscate_python_code_def payload_text_def Let_def)
        done
    next
      case no: False
      show ?thesis
        apply (rule exI [of _ "''import base64, zlib\<newline>b = ''"])
        apply (rule exI [of _ "''\<newline>try:\<newline>    src = base64.b64decode(b)\<newline>except Exception:\<newline>    raise SystemExit('' @ [sq] @ ''Decoding failed'' @ [sq] @ '')\<newline>exec(src, globals())\<newline>''"])
        using False nc no apply (simp add: obfuscate_python_code_def payload_text_def Let_def)
        done
    qed
  qed
qed

text \<open>
  C2 (failing input). With compression off, the empty source gives an empty literal
  \<^verbatim>\<open>b""""""\<close>; the pattern asks for at least one character between the quotes, so the
  decoder finds no block and returns its error text instead of the empty text, for every
  template.
\<close>

theorem empty_source_not_recovered:
  "deobfuscate_python_code zd (obfuscate_python_code zc [] False template)
     = ''Error: Could not find Base64 encoded data in the file''"
proof -
  obtain pre post where p: "dq \<notin> set pre" "dq \<notin> set post"
    and eq: "obfuscate_python_code zc [] False template
       = pre @ CHR ''b'' # dq # dq # dq # payload_text zc [] False @ dq # dq # dq # post"
    using obfuscate_shape by blast
  have e: "payload_text zc [] False = []"
    by (simp add: payload_text_def base64_encode_def utf8_encode_def)
  have "re_search (obfuscate_python_code zc [] False template) = None"
    unfolding eq e using re_search_block [OF p, of "[]"] by simp
  then show ?thesis by (simp add: deobfuscate_python_code_def)
qed

text \<open>
  C3 (counterexample). The loader text names \<^verbatim>\<open>zlib.decompress\<close>, the payload decodes to
  the bytes \<^verbatim>\<open>hello\<close>, decompressing them fails, and the decoder returns \<^verbatim>\<open>hello\<close>, which
  is not an error text.
\<close>

theorem decompression_failure_swallowed:
  "re_search tampered_artifact = Some ''aGVsbG8='' \<and>
   b64decode ''aGVsbG8='' = Inr (utf8_encode ''hello'') \<and>
   framing_decompress (utf8_encode ''hello'') = Inl ZlibError \<and>
   deobfuscate_python_code framing_decompress tampered_artifact = ''hello'' \<and>
   \<not> is_error_result ''hello''"
  by code_simp

text \<open>
  C3 (amended). When the literal is found and decodes, the text names
  \<^verbatim>\<open>zlib.decompress\<close> and the decompression fails, the failure is dropped: the result is
  the base-64-decoded payload read as UTF-8, and only if that is not well-formed UTF-8
  the error text for the decoding failure.
\<close>

theorem decompression_failure_falls_back:
  assumes "re_search code = Some g"
    and "b64decode (filter (\<lambda>c. c \<noteq> nl) g) = Inr decoded"
    and "contains (utf8_encode ''zlib.decompress'') (utf8_encode code)"
    and "zd decoded = Inl e"
  shows "deobfuscate_python_code zd code =
           (if utf8_valid decoded then map (\<lambda>b. char_of (unat b)) decoded
            else error_during UnicodeDecodeError)"
  using assms
  by (simp add: deobfuscate_python_code_def decode_plain_def utf8_decode_def)

theorem decompression_failure_falls_back_witness:
  "re_search tampered_artifact = Some ''aGVsbG8='' \<and>
   b64decode (filter (\<lambda>c. c \<noteq> nl) ''aGVsbG8='') = Inr (utf8_encode ''hello'') \<and>
   contains (utf8_encode ''zlib.decompress'') (utf8_encode tampered_artifact) \<and>
   framing_decompress (utf8_encode ''hello'') = Inl ZlibError \<and>
   utf8_valid (utf8_encode ''hello'') \<and>
   deobfuscate_python_code framing_decompress tampered_artifact = ''hello''"
proof -
  have 1: "re_search tampered_artifact = Some ''aGVsbG8=''" by code_simp
  have 2: "b64decode (filter (\<lambda>c. c \<noteq> nl) ''aGVsbG8='') = Inr (utf8_encode ''hello'')"
    by code_simp
  have 3: "contains (utf8_encode ''zlib.decompress'') (utf8_encode tampered_artifact)"
    by code_simp
  have 4: "framing_decompress (utf8_encode ''hello'') = Inl ZlibError" by code_simp
  have 5: "utf8_valid (utf8_encode ''hello'')" by code_simp
  have 6: "map (\<lambda>b. char_of (unat b)) (utf8_encode ''hello'') = ''hello''" by code_simp
  show ?thesis
    using decompression_failure_falls_back
            [of tampered_artifact "''aGVsbG8=''" "utf8_encode ''hello''" framing_decompress ZlibError,
             OF 1 2 3 4] 1 2 3 4 5 6
    by simp
qed

section \<open>Properties of the base-64 codec\<close>

lemma b64val_b64char: "n < 64 \<Longrightarrow> b64val (b64char n) = Some n"
  by (auto simp add: b64val_def b64char_def Let_def)

lemma b64val_pad [simp]: "b64val (CHR ''='') = None"
  by (simp add: b64val_def)

lemma b64val_nl [simp]: "b64val nl = None"
  by (simp add: b64val_def)

lemma b64val_ascii: "b64val c = Some v \<Longrightarrow> (of_char c :: nat) < 128 \<and> v < 64"
  by (auto simp: b64val_def Let_def split: if_splits)

lemma unat_byte_lt: "unat (a :: byte) < 256"
  using unsigned_less [of a, where ?'a = nat] by simp

lemma b64char_digit: "n < 64 \<Longrightarrow> b64_digit (b64char n)"
  by (simp add: b64val_b64char b64_digit_def)

lemma b64_digit_val: "b64_digit c \<Longrightarrow> \<exists>v. b64val c = Some v \<and> c \<noteq> CHR ''='' \<and> c \<noteq> nl"
  by (auto simp: b64_digit_def)

lemma b64encode_shape:
  "\<exists>ds k. b64encode bs = ds @ replicate k (CHR ''='') \<and>
          list_all b64_digit ds \<and> k \<le> 2 \<and> (length ds + k) mod 4 = 0"
proof (induction bs rule: b64encode.induct)
  case 1
  show ?case by (rule exI [of _ "[]"], rule exI [of _ 0]) simp
next
  case (2 a)
  have a: "unat a < 256" by (rule unat_byte_lt)
  show ?case
    apply (rule exI [of _ "[b64char (unat a div 4), b64char ((unat a mod 4) * 16)]"])
    apply (rule exI [of _ 2])
    using a apply (simp add: b64char_digit numeral_2_eq_2)
    done
next
  case (3 a b)
  have a: "unat a < 256" "unat b < 256" by (rule unat_byte_lt)+
  have l: "(unat a mod 4) * 16 + unat b div 16 < 64" using a by simp
  show ?case
    apply (rule exI [of _ "[b64char (unat a div 4), b64char ((unat a mod 4) * 16 + unat b div 16),
                           b64char ((unat b mod 16) * 4)]"])
    apply (rule exI [of _ 1])
    using a l apply (simp add: b64char_digit)
    done
next
  case (4 a b c bs)
  have a: "unat a < 256" "unat b < 256" "unat c < 256" by (rule unat_byte_lt)+
  have l: "(unat a mod 4) * 16 + unat b div 16 < 64" "(unat b mod 16) * 4 + unat c div 64 < 64"
    using a by simp_all
  from 4 obtain ds k where ih: "b64encode bs = ds @ replicate k (CHR ''='')"
    "list_all b64_digit ds" "k \<le> 2" "(length ds + k) mod 4 = 0" by auto
  show ?case
    apply (rule exI [of _ "[b64char (unat a div 4), b64char ((unat a mod 4) * 16 + unat b div 16),
       b64char ((unat b mod 16) * 4 + unat c div 64), b64char (unat c mod 64)] @ ds"])
    apply (rule exI [of _ k])
    using a l ih apply (simp add: b64char_digit)
    done
qed

lemma a2b_digits:
  "list_all b64_digit ds \<Longrightarrow> q < 4 \<Longrightarrow>
   \<exists>l' out'. a2b_base64 (ds @ rest) q l p out
     = a2b_base64 rest ((q + length ds) mod 4) l' (if ds = [] then p else 0) out'"
proof (induction ds arbitrary: q l p out)
  case Nil
  then show ?case by auto
next
  case (Cons c ds)
  from Cons.prems have c: "b64_digit c" and ds: "list_all b64_digit ds" by auto
  from b64_digit_val [OF c] obtain v where v: "b64val c = Some v" and ne: "c \<noteq> CHR ''=''"
    by blast
  have q': "(q + 1) mod 4 < 4" by simp
  have "\<exists>l1 out1. a2b_base64 ((c # ds) @ rest) q l p out
      = a2b_base64 (ds @ rest) ((q + 1) mod 4) l1 0 out1"
  proof -
    consider "q = 0" | "q = 1" | "q = 2" | "q = 3" using Cons.prems(2) by linarith
    then show ?thesis
    proof cases
      case 1
      have "a2b_base64 ((c # ds) @ rest) q l p out = a2b_base64 (ds @ rest) 1 v 0 out"
        by (simp add: 1 v ne)
      moreover have "(q + 1) mod 4 = 1" by (simp add: 1)
      ultimately show ?thesis by metis
    next
      case 2
      have "a2b_base64 ((c # ds) @ rest) q l p out
          = a2b_base64 (ds @ rest) 2 (v mod 16) 0 (out @ [of_nat (l * 4 + v div 16)])"
        by (simp add: 2 v ne)
      moreover have "(q + 1) mod 4 = 2" by (simp add: 2)
      ultimately show ?thesis by metis
    next
      case 3
      have "a2b_base64 ((c # ds) @ rest) q l p out
          = a2b_base64 (ds @ rest) 3 (v mod 4) 0 (out @ [of_nat (l * 16 + v div 4)])"
        by (simp add: 3 v ne)
      moreover have "(q + 1) mod 4 = 3" by (simp add: 3)
      ultimately show ?thesis by metis
    next
      case 4
      have "a2b_base64 ((c # ds) @ rest) q l p out
          = a2b_base64 (ds @ rest) 0 0 0 (out @ [of_nat (l * 64 + v)])"
        by (simp add: 4 v ne)
      moreover have "(q + 1) mod 4 = 0" by (simp add: 4)
      ultimately show ?thesis by metis
    qed
  qed
  then obtain l1 out1 where step: "a2b_base64 ((c # ds) @ rest) q l p out
      = a2b_base64 (ds @ rest) ((q + 1) mod 4) l1 0 out1" by auto
  from Cons.IH [OF ds q', of l1 0 out1] obtain l' out' where
    ih: "a2b_base64 (ds @ rest) ((q + 1) mod 4) l1 0 out1
      = a2b_base64 rest (((q + 1) mod 4 + length ds) mod 4) l' 0 out'"
    by (cases "ds = []") auto
  have "((q + 1) mod 4 + length ds) mod 4 = (q + length (c # ds)) mod 4"
    by (simp add: mod_add_left_eq)
  then show ?case using step ih by auto
qed

lemma a2b_pads_fail:
  "0 < q \<Longrightarrow> q < 4 \<Longrightarrow> q = 1 \<or> q + p + k < 4 \<Longrightarrow>
   isl (a2b_base64 (replicate k (CHR ''='')) q l p out)"
proof (induction k arbitrary: p)
  case 0
  then show ?case by simp
next
  case (Suc k)
  have "q = 1 \<or> q + (if 2 \<le> q then p + 1 else p) + k < 4" using Suc.prems by auto
  from Suc.IH [OF Suc.prems(1,2) this] show ?case using Suc.prems by auto
qed

lemma a2b_digits_pads_fail:
  assumes "list_all b64_digit ds" "length ds mod 4 \<noteq> 0"
    "length ds mod 4 = 1 \<or> length ds mod 4 + k < 4"
  shows "isl (a2b_base64 (ds @ replicate k (CHR ''='')) 0 0 0 out)"
proof -
  from assms(2) have ne: "ds \<noteq> []" by auto
  from a2b_digits [OF assms(1), of 0 "replicate k (CHR ''='')" 0 0 out] ne
  obtain l' out' where "a2b_base64 (ds @ replicate k (CHR ''='')) 0 0 0 out
     = a2b_base64 (replicate k (CHR ''='')) (length ds mod 4) l' 0 out'" by auto
  moreover have "isl (a2b_base64 (replicate k (CHR ''='')) (length ds mod 4) l' 0 out')"
    using assms(2,3) by (intro a2b_pads_fail) auto
  ultimately show ?thesis by simp
qed

lemma b64encode_ascii: "\<not> list_ex (\<lambda>c. 128 \<le> (of_char c :: nat)) (b64encode bs)"
proof -
  obtain ds k where s: "b64encode bs = ds @ replicate k (CHR ''='')"
    "list_all b64_digit ds" using b64encode_shape [of bs] by auto
  have "\<forall>c \<in> set ds. (of_char c :: nat) < 128"
    using s(2) b64val_ascii by (fastforce simp: list_all_iff b64_digit_def)
  then show ?thesis unfolding s(1) by (auto simp: list_ex_iff)
qed

lemma b64encode_class: "list_all b64_class (b64encode bs)"
proof -
  obtain ds k where s: "b64encode bs = ds @ replicate k (CHR ''='')"
    "list_all b64_digit ds" using b64encode_shape [of bs] by auto
  show ?thesis unfolding s(1) using s(2) by (auto simp: list_all_iff b64_class_def)
qed

lemma b64encode_no_nl: "nl \<notin> set (b64encode bs)"
proof -
  obtain ds k where s: "b64encode bs = ds @ replicate k (CHR ''='')"
    "list_all b64_digit ds" using b64encode_shape [of bs] by auto
  show ?thesis unfolding s(1) using s(2) by (auto simp: list_all_iff dest: b64_digit_val)
qed

lemma rem_digit:
  "(Suc n + k) mod 4 = 0 \<Longrightarrow> k \<le> 2 \<Longrightarrow> n mod 4 \<noteq> 0 \<and> (n mod 4 = 1 \<or> n mod 4 + k < 4)"
proof -
  assume a: "(Suc n + k) mod 4 = 0" and k: "k \<le> 2"
  have e: "(Suc n + k) mod 4 = (Suc (n mod 4) + k) mod 4"
    by (metis add_Suc mod_add_left_eq mod_Suc_eq)
  have r: "n mod 4 < 4" by simp
  from k have "k = 0 \<or> k = 1 \<or> k = 2" by linarith
  moreover have "n mod 4 = 0 \<or> n mod 4 = 1 \<or> n mod 4 = 2 \<or> n mod 4 = 3" using r by linarith
  ultimately show ?thesis using a unfolding e by (elim disjE) simp_all
qed
lemma rem_pad:
  "(n + Suc k) mod 4 = 0 \<Longrightarrow> Suc k \<le> 2 \<Longrightarrow> n mod 4 \<noteq> 0 \<and> (n mod 4 = 1 \<or> n mod 4 + k < 4)"
proof -
  assume a: "(n + Suc k) mod 4 = 0" and k: "Suc k \<le> 2"
  have e: "(n + Suc k) mod 4 = (n mod 4 + Suc k) mod 4"
    by (metis mod_add_left_eq)
  have r: "n mod 4 < 4" by simp
  from k have "k = 0 \<or> k = 1" by linarith
  moreover have "n mod 4 = 0 \<or> n mod 4 = 1 \<or> n mod 4 = 2 \<or> n mod 4 = 3" using r by linarith
  ultimately show ?thesis using a unfolding e by (elim disjE) simp_all
qed

lemma replicate_one_removed:
  "j < k \<Longrightarrow> take j (replicate k x) @ drop (Suc j) (replicate k x) = replicate (k - 1) x"
proof -
  assume "j < k"
  then have "min j k + (k - Suc j) = k - 1" by arith
  then show ?thesis by (simp flip: replicate_add)
qed

lemma b64decode_one_removed:
  assumes "i < length (b64encode bs)"
  shows "isl (b64decode (take i (b64encode bs) @ drop (Suc i) (b64encode bs)))"
proof -
  obtain ds k where s: "b64encode bs = ds @ replicate k (CHR ''='')"
    and d: "list_all b64_digit ds" and k: "k \<le> 2"
    and m: "(length ds + k) mod 4 = 0" using b64encode_shape [of bs] by auto
  let ?r = "take i (b64encode bs) @ drop (Suc i) (b64encode bs)"
  have asc: "\<not> list_ex (\<lambda>c. 128 \<le> (of_char c :: nat)) ?r"
    using b64encode_ascii [of bs]
    by (auto simp: list_ex_iff dest: in_set_takeD in_set_dropD)
  have "isl (a2b_base64 ?r 0 0 0 [])"
  proof (cases "i < length ds")
    case True
    let ?ds = "take i ds @ drop (Suc i) ds"
    have r: "?r = ?ds @ replicate k (CHR ''='')" using True by (simp add: s)
    have d': "list_all b64_digit ?ds"
      using d by (auto simp: list_all_iff dest: in_set_takeD in_set_dropD)
    have len: "length ?ds = length ds - 1" using True by simp
    have pos: "0 < length ds" using True by (cases ds) auto
    from pos obtain n where n: "length ds = Suc n" by (cases "length ds") auto
    have m12: "length ?ds mod 4 \<noteq> 0 \<and> (length ?ds mod 4 = 1 \<or> length ?ds mod 4 + k < 4)"
      using rem_digit [of n k] m k unfolding len n by simp
    then have m1: "length ?ds mod 4 \<noteq> 0"
      and m2: "length ?ds mod 4 = 1 \<or> length ?ds mod 4 + k < 4" by blast+
    show ?thesis unfolding r by (rule a2b_digits_pads_fail [OF d' m1 m2])
  next
    case False
    with assms have kpos: "0 < k" and i: "i - length ds < k" by (simp_all add: s)
    have r: "?r = ds @ replicate (k - 1) (CHR ''='')"
    proof -
      have "take (i - length ds) (replicate k (CHR ''='')) @ drop (Suc (i - length ds)) (replicate k (CHR ''=''))
            = replicate (k - 1) (CHR ''='')"
        using i by (rule replicate_one_removed)
      then show ?thesis using False by (simp add: s Suc_diff_le)
    qed
    from kpos obtain k' where k': "k = Suc k'" by (cases k) auto
    have m12: "length ds mod 4 \<noteq> 0 \<and> (length ds mod 4 = 1 \<or> length ds mod 4 + k' < 4)"
      using rem_pad [of "length ds" k'] m k unfolding k' by simp
    then have m1: "length ds mod 4 \<noteq> 0"
      and m2: "length ds mod 4 = 1 \<or> length ds mod 4 + (k - 1) < 4" by (simp_all add: k')
    show ?thesis unfolding r by (rule a2b_digits_pads_fail [OF d m1 m2])
  qed
  then show ?thesis using asc by (simp add: b64decode_def)
qed

section \<open>Decoding a corrupted artifact\<close>

lemma match_here_third: "d \<noteq> dq \<Longrightarrow> match_here (a # b # d # r) = None"
  by (simp add: match_here_def)

lemma prefix_dqdq:
  "dq \<notin> set D2 \<Longrightarrow> prefix [dq, dq] (D2 @ dq # dq # dq # post) \<longleftrightarrow> D2 = []"
  by (cases D2) auto

lemma re_search_altered:
  assumes pre: "dq \<notin> set pre" and post: "dq \<notin> set post"
    and D: "list_all b64_class D" and i: "i < length D" and c: "\<not> b64_class c"
  shows "re_search (pre @ CHR ''b'' # dq # dq # dq # D[i := c] @ dq # dq # dq # post)
           = (if c = dq \<and> 0 < i \<and> Suc i = length D then Some (take i D) else None)"
proof -
  define D1 where "D1 = take i D"
  define D2 where "D2 = drop (Suc i) D"
  have upd: "D[i := c] = D1 @ c # D2"
    using i by (simp add: D1_def D2_def upd_conv_take_nth_drop)
  have c1: "list_all b64_class D1" and c2: "list_all b64_class D2"
    using D by (auto simp: D1_def D2_def list_all_iff dest: in_set_takeD in_set_dropD)
  have n1: "dq \<notin> set D1" and n2: "dq \<notin> set D2"
    using c1 c2 by (auto dest: class_no_dq)
  have e1: "D1 \<noteq> [] \<longleftrightarrow> 0 < i" using i by (auto simp: D1_def)
  have e2: "D2 = [] \<longleftrightarrow> Suc i = length D" using i by (auto simp: D2_def)
  let ?R = "D1 @ c # D2 @ dq # dq # dq # post"
  have pb: "dq \<notin> set (pre @ [CHR ''b''])" using pre by simp
  have m: "match_here (CHR ''b'' # dq # dq # dq # ?R)
             = (if D1 \<noteq> [] \<and> c = dq \<and> D2 = [] then Some D1 else None)"
    using c1 c n2 by (simp add: match_here_open takeWhile_class dropWhile_class prefix_dqdq)
  have closing: "re_search (D2 @ dq # dq # dq # post) = None"
    using n2 post by (rule re_search_closing)
  have rest: "\<not> (D1 \<noteq> [] \<and> c = dq \<and> D2 = []) \<Longrightarrow> re_search ?R = None"
  proof (cases "c = dq")
    case False
    then have "dq \<notin> set (D1 @ c # D2)" using n1 n2 by simp
    from re_search_closing [OF this post] show ?thesis by simp
  next
    case True
    assume a: "\<not> (D1 \<noteq> [] \<and> c = dq \<and> D2 = [])"
    have tl: "re_search (dq # D2 @ dq # dq # dq # post) = None" using closing by simp
    have "D1 \<noteq> [] \<Longrightarrow> match_here (CHR ''b'' # dq # D2 @ dq # dq # dq # post) = None"
    proof -
      assume "D1 \<noteq> []"
      with a True obtain d D2' where d: "D2 = d # D2'" by (cases D2) auto
      with n2 have "d \<noteq> dq" by auto
      then show ?thesis by (simp add: d match_here_third)
    qed
    then show ?thesis
      using re_search_skip [OF n1, of "c # D2 @ dq # dq # dq # post"] tl True by auto
  qed
  have "re_search ((pre @ [CHR ''b'']) @ dq # dq # dq # ?R)
          = (if D1 \<noteq> [] \<and> c = dq \<and> D2 = [] then Some D1 else None)"
    unfolding re_search_skip [OF pb] using m rest by auto
  then show ?thesis using e1 e2 by (auto simp: upd D1_def)
qed

lemma literal_start_skip:
  "dq \<notin> set pre \<Longrightarrow> literal_start (pre @ CHR ''b'' # dq # dq # dq # R) = length pre + 4"
proof (induction pre)
  case Nil
  then show ?case by simp
next
  case (Cons a pre)
  have "\<not> prefix (CHR ''b'' # tq) (a # pre @ CHR ''b'' # dq # dq # dq # R)"
    using Cons.prems by (cases pre) auto
  then show ?case using Cons by simp
qed

lemma update_in_block:
  "i < length P \<Longrightarrow>
   (pre @ CHR ''b'' # dq # dq # dq # P @ R)[length pre + 4 + i := c]
     = pre @ CHR ''b'' # dq # dq # dq # P[i := c] @ R"
  by (simp add: list_update_append)

lemma notin_take: "x \<notin> set xs \<Longrightarrow> x \<notin> set (take n xs)"
  by (auto dest: in_set_takeD)

lemma notin_drop: "x \<notin> set xs \<Longrightarrow> x \<notin> set (drop n xs)"
  by (auto dest: in_set_dropD)

lemma filter_nl_id: "nl \<notin> set xs \<Longrightarrow> filter (\<lambda>c. c \<noteq> nl) xs = xs"
  by (induction xs) auto

lemma error_during_is_error: "is_error_result (error_during e)"
  by (simp add: is_error_result_def error_during_def)

lemma deobfuscate_decode_error:
  "re_search code = Some g \<Longrightarrow> isl (b64decode (filter (\<lambda>c. c \<noteq> nl) g)) \<Longrightarrow>
   is_error_result (deobfuscate_python_code zd code)"
  by (cases "b64decode (filter (\<lambda>c. c \<noteq> nl) g)")
     (simp_all add: deobfuscate_python_code_def error_during_is_error)

lemma deobfuscate_no_block:
  "re_search code = None \<Longrightarrow> is_error_result (deobfuscate_python_code zd code)"
  by (simp add: deobfuscate_python_code_def is_error_result_def)

lemma corrupted_unit_reports_error:
  assumes i: "i < length (payload_text zc src cmp)"
    and c: "b64val c = None" "c \<noteq> CHR ''=''"
  shows "is_error_result
           (deobfuscate_python_code zd
              ((obfuscate_python_code zc src cmp template)
                 [literal_start (obfuscate_python_code zc src cmp template) + i := c]))"
proof -
  obtain pre post where p: "dq \<notin> set pre" "dq \<notin> set post"
    and eq: "obfuscate_python_code zc src cmp template
       = pre @ CHR ''b'' # dq # dq # dq # payload_text zc src cmp @ dq # dq # dq # post"
    using obfuscate_shape by blast
  define bs where "bs = (if cmp then zc (utf8_encode src) else utf8_encode src)"
  define P where "P = b64encode bs"
  have P: "payload_text zc src cmp = P"
    by (simp add: payload_text_def base64_encode_def P_def bs_def)
  have cls: "list_all b64_class P" unfolding P_def by (rule b64encode_class)
  have nonl: "nl \<notin> set P" unfolding P_def by (rule b64encode_no_nl)
  have iP: "i < length P" using i P by simp
  have removed: "isl (b64decode (take i P @ drop (Suc i) P))"
    using iP unfolding P_def by (rule b64decode_one_removed)
  let ?code = "pre @ CHR ''b'' # dq # dq # dq # P[i := c] @ dq # dq # dq # post"
  have code: "(obfuscate_python_code zc src cmp template)
                 [literal_start (obfuscate_python_code zc src cmp template) + i := c] = ?code"
    unfolding eq P literal_start_skip [OF p(1)] using update_in_block [OF iP] by simp
  have upd: "P[i := c] = take i P @ c # drop (Suc i) P"
    using iP by (simp add: upd_conv_take_nth_drop)
  have "is_error_result (deobfuscate_python_code zd ?code)"
  proof (cases "c = nl")
    case True
    have "list_all b64_class (P[i := c])"
      using cls True by (auto simp: list_all_iff b64_class_def dest: set_update_subset_insert [THEN subsetD])
    moreover have "P[i := c] \<noteq> []" using iP by auto
    ultimately have s: "re_search ?code = Some (P[i := c])"
      using re_search_block [OF p, of "P[i := c]"] by simp
    have "filter (\<lambda>c. c \<noteq> nl) (P[i := c]) = take i P @ drop (Suc i) P"
      unfolding upd using nonl True
      by (simp add: filter_nl_id notin_take notin_drop)
    then show ?thesis using deobfuscate_decode_error [OF s] removed by simp
  next
    case False
    then have nc: "\<not> b64_class c" using c by (simp add: b64_class_def b64_digit_def)
    show ?thesis
    proof (cases "c = dq \<and> 0 < i \<and> Suc i = length P")
      case True
      then have s: "re_search ?code = Some (take i P)"
        using re_search_altered [OF p cls iP nc] by simp
      have "filter (\<lambda>c. c \<noteq> nl) (take i P) = take i P @ drop (Suc i) P"
        using nonl True by (simp add: filter_nl_id notin_take)
      then show ?thesis using deobfuscate_decode_error [OF s] removed by simp
    next
      case False
      then have "re_search ?code = None"
        using re_search_altered [OF p cls iP nc] by simp
      then show ?thesis by (rule deobfuscate_no_block)
    qed
  qed
  then show ?thesis unfolding code .
qed


section \<open>Renaming under shadowing\<close>












section \<open>The environment a loader executes in\<close>

lemma prefix_through:
  "prefix xs (Q @ y # R) \<Longrightarrow> y \<notin> set xs \<Longrightarrow> prefix xs Q"
proof (induction Q arbitrary: xs)
  case Nil
  then show ?case by (cases xs) auto
next
  case (Cons q Q)
  then show ?case by (cases xs) auto
qed

lemma no_exec_in:
  assumes "CHR ''('' \<notin> set Q" "y \<notin> set ''exec(''"
  shows "\<not> prefix ''exec('' (Q @ y # R)"
proof
  assume "prefix ''exec('' (Q @ y # R)"
  then have "prefix ''exec('' Q" using assms(2) by (rule prefix_through)
  then have "set ''exec('' \<subseteq> set Q" by (rule set_mono_prefix)
  then show False using assms(1) by simp
qed

lemma exec_env_step:
  assumes "\<not> prefix ''exec('' (c # cs)"
  shows "exec_env_from prev (c # cs) = exec_env_from c cs"
  apply (subst exec_env_from.simps(2))
  apply (simp only: assms simp_thms if_False)
  done

lemma exec_env_skip:
  "CHR ''('' \<notin> set Q \<Longrightarrow> y \<notin> set ''exec('' \<Longrightarrow>
   exec_env_from prev (Q @ y # R) = exec_env_from (last (prev # Q)) (y # R)"
proof (induction Q arbitrary: prev)
  case Nil
  then show ?case by simp
next
  case (Cons q Q)
  have "\<not> prefix ''exec('' ((q # Q) @ y # R)"
    using Cons.prems by (rule no_exec_in)
  then have "exec_env_from prev ((q # Q) @ y # R) = exec_env_from q (Q @ y # R)"
    unfolding append_Cons by (rule exec_env_step)
  also have "\<dots> = exec_env_from (last (q # Q)) (y # R)"
    using Cons.IH [of q] Cons.prems by simp
  finally show ?case by simp
qed

lemma exec_env_skip_ident:
  "list_all ident_char Q \<Longrightarrow> ident_char prev \<Longrightarrow>
   exec_env_from prev (Q @ R) = exec_env_from (last (prev # Q)) R"
proof (induction Q arbitrary: prev)
  case Nil
  then show ?case by simp
next
  case (Cons q Q)
  then show ?case by simp
qed

lemma scan_skip:
  "list_all arg_char P \<Longrightarrow> scan_args (P @ R) d arg = scan_args R d (arg @ P)"
  by (induction P arbitrary: arg) (auto simp: arg_char_def)

lemma class_arg_char: "b64_class c \<Longrightarrow> arg_char c"
  by (auto simp: b64_class_def b64_digit_def b64val_def arg_char_def Let_def split: if_splits)

lemma class_facts:
  assumes "list_all b64_class P"
  shows "CHR ''('' \<notin> set P" "list_all arg_char P"
  using assms class_arg_char by (auto simp: list_all_iff arg_char_def)

lemma exec_env_obfuscate:
  "exec_env (obfuscate_python_code zc src cmp template) = Some ''globals()''"
proof -
  define P where "P = payload_text zc src cmp"
  have "list_all b64_class P"
    by (simp add: P_def payload_text_def base64_encode_def b64encode_class)
  note pf = class_facts [OF this]
  have P: "base64_encode (zc (utf8_encode src)) = P" if "cmp"
    using that by (simp add: P_def payload_text_def)
  have P': "base64_encode (utf8_encode src) = P" if "\<not> cmp"
    using that by (simp add: P_def payload_text_def)
  show ?thesis
  proof (cases cmp)
    case True
    show ?thesis
      using pf True
      by (cases "template = ''compact''"; cases "template = ''obfuscated''")
         (simp_all add: obfuscate_python_code_def Let_def P exec_env_def exec_env_skip
            scan_skip ident_char_def)
  next
    case False
    show ?thesis
      using pf False
      by (cases "template = ''compact''"; cases "template = ''obfuscated''")
         (simp_all add: obfuscate_python_code_def Let_def P' exec_env_def exec_env_skip
            scan_skip ident_char_def)
  qed
qed

lemma contains_suffix: "contains X B \<Longrightarrow> contains X (A @ B)"
  by (induction A) auto

lemma exec_env_simple:
  "exec_env (make_simple_wrapper zc src) = Some ''_g''"
proof -
  define P where "P = compress_b64 zc (utf8_encode src)"
  have "list_all b64_class P" by (simp add: P_def compress_b64_def b64encode_class)
  note pf = class_facts [OF this]
  show ?thesis
    using pf
    by (simp add: make_simple_wrapper_def Let_def P_def [symmetric] py_repr_def exec_env_def
          exec_env_skip ident_char_def)
qed

lemma fresh_dict_simple:
  "contains ''\<newline>_g = {}\<newline>exec('' (make_simple_wrapper zc src)"
proof -
  let ?B = "''\<newline>_g = {}\<newline>exec(compile(_data.decode('' @ [sq] @ ''utf-8'' @ [sq]
         @ ''), '' @ [sq] @ ''<obf>'' @ [sq] @ '', '' @ [sq] @ ''exec'' @ [sq]
         @ ''), _g)\<newline>''"
  have "contains ''\<newline>_g = {}\<newline>exec('' ?B" by simp
  then have "contains ''\<newline>_g = {}\<newline>exec('' (A @ ?B)" for A
    by (rule contains_suffix)
  from this [of "''# Obfuscated by pyobf (simple mode)\<newline>import base64, zlib, types, sys''
         @ ''\<newline>_payload = '' @ py_repr (compress_b64 zc (utf8_encode src))
         @ ''\<newline>_data = zlib.decompress(base64.b64decode(_payload))''
         @ ''\<newline># execute the code in a fresh globals dict to avoid leaking into wrapper scope''"]
  show ?thesis by (simp add: make_simple_wrapper_def Let_def)
qed

lemma lowercase_ident: "list_all ident_char ascii_lowercase"
  by (simp add: ascii_lowercase_def ident_char_def)

lemma random_ident_chars:
  "list_all ident_char (map (\<lambda>i. ascii_lowercase ! (r i mod 26)) xs)"
proof -
  have "ident_char (ascii_lowercase ! j)" if "j < 26" for j
    using lowercase_ident that by (simp add: list_all_length ascii_lowercase_def)
  then show ?thesis by (simp add: list_all_iff)
qed

lemma exec_env_marshal:
  assumes "build_marshal_xor_wrapper cm tb rnd src key_len = Inr w"
  shows "exec_env w = Some ''{}''"
proof -
  from assms obtain m where m: "cm src = Inr m"
    by (cases "cm src") (auto simp: build_marshal_xor_wrapper_def)
  from assms m obtain xored where x: "xor_bytes m (tb key_len) = Inr xored"
    by (cases "xor_bytes m (tb key_len)") (auto simp: build_marshal_xor_wrapper_def Let_def)
  define K where "K = b64encode (tb key_len)"
  define P where "P = b64encode xored"
  define L where "L = map (\<lambda>i. ascii_lowercase ! (rnd i mod 26)) [0 ..< 8]"
  have kf: "CHR ''('' \<notin> set K" and pf: "CHR ''('' \<notin> set P"
    using class_facts(1) [OF b64encode_class] by (simp_all add: K_def P_def)
  have L: "list_all ident_char L" unfolding L_def by (rule random_ident_chars)
  have name: "fst (make_random_ident rnd 8 0) = CHR ''_'' # L"
    by (simp add: make_random_ident_def randbelow_def L_def ascii_lowercase_def)
  have w: "w = ''# Obfuscated by pyobf_xor_marshal (marshal_xor mode)''
                        @ ''\<newline>import base64, marshal\<newline>def '' @ (CHR ''_'' # L) @ ''():''
                        @ ''\<newline>    _k = base64.b64decode('' @ py_repr K @ '')''
                        @ ''\<newline>    _p = base64.b64decode('' @ py_repr P @ '')''
                        @ ''\<newline>    # xor back\<newline>    _d = bytearray(len(_p))''
                        @ ''\<newline>    for i, b in enumerate(_p):''
                        @ ''\<newline>        _d[i] = b ^ _k[i % len(_k)]''
                        @ ''\<newline>    _code = marshal.loads(bytes(_d))''
                        @ ''\<newline>    exec(_code, {})\<newline>'' @ (CHR ''_'' # L) @ ''()\<newline>''"
    using assms m x by (simp add: build_marshal_xor_wrapper_def Let_def name K_def P_def)
  have i: "ident_char (CHR ''_'')" by (simp add: ident_char_def)
  show ?thesis
    unfolding w using kf pf
    by (simp add: exec_env_def py_repr_def exec_env_skip exec_env_skip_ident [OF L i]
          ident_char_def)
qed

text \<open>
  C4 (amended). Every loader of \<open>obfuscate_python_code\<close> (each template, with or without
  compression) passes \<^verbatim>\<open>globals()\<close>, its own module environment, to \<^verbatim>\<open>exec\<close>. The
  loader of \<open>make_simple_wrapper\<close> passes \<^verbatim>\<open>_g\<close>, bound to a new empty dictionary on
  the line before, and the loader of \<open>build_marshal_xor_wrapper\<close> passes a new empty
  dictionary \<^verbatim>\<open>{}\<close>.
\<close>

theorem loader_exec_environments:
  "exec_env (obfuscate_python_code zc src cmp template) = Some ''globals()'' \<and>
   exec_env (make_simple_wrapper zc src) = Some ''_g'' \<and>
   contains ''\<newline>_g = {}\<newline>exec('' (make_simple_wrapper zc src) \<and>
   (\<forall>w. build_marshal_xor_wrapper cm tb rnd src key_len = Inr w \<longrightarrow> exec_env w = Some ''{}'')"
  by (simp add: exec_env_obfuscate exec_env_simple fresh_dict_simple exec_env_marshal)

theorem loader_exec_environments_witness:
  "(\<exists>w. build_marshal_xor_wrapper sample_marshal sample_key counting_draws ''x = 1'' 16 = Inr w
        \<and> exec_env w = Some ''{}'') \<and>
   exec_env (obfuscate_python_code framing_compress ''x = 1'' True ''compact'') = Some ''globals()'' \<and>
   exec_env (make_simple_wrapper framing_compress ''x = 1'') = Some ''_g''"
proof -
  have "\<not> isl (build_marshal_xor_wrapper sample_marshal sample_key counting_draws ''x = 1'' 16)"
    by code_simp
  then obtain w where
    w: "build_marshal_xor_wrapper sample_marshal sample_key counting_draws ''x = 1'' 16 = Inr w"
    by (cases "build_marshal_xor_wrapper sample_marshal sample_key counting_draws ''x = 1'' 16")
       auto
  show ?thesis
    using loader_exec_environments
            [of framing_compress "''x = 1''" True "''compact''" sample_marshal sample_key
                counting_draws 16] w
    by simp
qed

text \<open>
  C4 (counterexample). The standard loader for the source \<^verbatim>\<open>x = 1\<close> ends with
  \<^verbatim>\<open>exec(src, globals())\<close>: the recovered program runs in the loader's own environment.
\<close>

theorem app_loader_uses_own_globals:
  "obfuscate_python_code framing_compress ''x = 1'' False ''standard''
     = ''import base64, zlib\<newline>b = b'' @ tq @ ''eCA9IDE='' @ tq
       @ ''\<newline>try:\<newline>    src = base64.b64decode(b)''
       @ ''\<newline>except Exception:\<newline>    raise SystemExit('' @ [sq]
       @ ''Decoding failed'' @ [sq] @ '')\<newline>exec(src, globals())\<newline>'' \<and>
   exec_env (obfuscate_python_code framing_compress ''x = 1'' False ''standard'')
     = Some ''globals()''"
  by code_simp

section \<open>One character of the literal replaced\<close>

lemma high_unit_facts:
  assumes "128 \<le> (of_char c :: nat)"
  shows "\<not> b64_class c" "c \<noteq> dq"
  using assms by (auto simp: b64_class_def b64_digit_def b64val_def Let_def split: if_splits)

lemma re_search_altered_multi:
  assumes pre: "dq \<notin> set pre" and post: "dq \<notin> set post"
    and D1: "list_all b64_class D1" and D2: "list_all b64_class D2"
    and u: "u \<noteq> []" "list_all (\<lambda>c. 128 \<le> (of_char c :: nat)) u"
  shows "re_search (pre @ CHR ''b'' # dq # dq # dq # D1 @ u @ D2 @ dq # dq # dq # post) = None"
proof -
  from u obtain c u' where cu: "u = c # u'" by (cases u) auto
  have c: "\<not> b64_class c" "c \<noteq> dq" using u(2) high_unit_facts by (auto simp: cu)
  have nu: "dq \<notin> set u" using u(2) high_unit_facts(2) by (auto simp: list_all_iff)
  have n: "dq \<notin> set (D1 @ u @ D2)"
    using class_no_dq [OF D1] class_no_dq [OF D2] nu by simp
  have pb: "dq \<notin> set (pre @ [CHR ''b''])" using pre by simp
  let ?R = "D1 @ c # u' @ D2 @ dq # dq # dq # post"
  have m: "match_here (CHR ''b'' # dq # dq # dq # ?R) = None"
    using D1 c by (simp add: match_here_open takeWhile_class dropWhile_class)
  have r: "re_search ?R = None"
    using re_search_closing [OF n post] by (simp add: cu)
  have "re_search ((pre @ [CHR ''b'']) @ dq # dq # dq # ?R) = None"
    unfolding re_search_skip [OF pb] using m r by simp
  then show ?thesis by (simp add: cu)
qed

lemma replace_in_block:
  "i < length P \<Longrightarrow>
   replace_char (pre @ CHR ''b'' # dq # dq # dq # P @ R) (length pre + 4 + i) u
     = pre @ CHR ''b'' # dq # dq # dq # take i P @ u @ drop (Suc i) P @ R"
proof -
  assume i: "i < length P"
  have a: "length pre + 4 + i - length pre = Suc (Suc (Suc (Suc i)))" by simp
  have b: "Suc (length pre + 4 + i) - length pre = Suc (Suc (Suc (Suc (Suc i))))" by simp
  show ?thesis
    using i unfolding replace_char_def take_append drop_append a b by simp
qed

text \<open>
  C9. Take any loader that \<open>obfuscate_python_code\<close> emits and replace one character of
  its literal by a character outside the base-64 alphabet. The decoder then returns an
  error text, one that the caller's test \<^verbatim>\<open>startswith("Error")\<close> recognises: either no
  block is found, or the block that is found has lost a character and the base-64
  decoding fails.
\<close>

theorem corrupted_block_reports_error:
  assumes i: "i < length (payload_text zc src cmp)" and u: "outside_alphabet u"
  shows "is_error_result
           (deobfuscate_python_code zd
              (replace_char (obfuscate_python_code zc src cmp template)
                 (literal_start (obfuscate_python_code zc src cmp template) + i) u))"
proof -
  obtain pre post where p: "dq \<notin> set pre" "dq \<notin> set post"
    and eq: "obfuscate_python_code zc src cmp template
       = pre @ CHR ''b'' # dq # dq # dq # payload_text zc src cmp @ dq # dq # dq # post"
    using obfuscate_shape by blast
  define P where "P = payload_text zc src cmp"
  let ?T = "obfuscate_python_code zc src cmp template"
  let ?k = "literal_start ?T + i"
  have k: "?k = length pre + 4 + i" unfolding eq by (simp add: literal_start_skip [OF p(1)])
  have iP: "i < length P" using i by (simp add: P_def)
  have klen: "?k < length ?T" unfolding k using iP by (simp add: eq P_def)
  show ?thesis
  proof (cases u)
    case Nil
    with u show ?thesis by (simp add: outside_alphabet_def)
  next
    case (Cons c u')
    show ?thesis
    proof (cases u')
      case Nil
      with Cons u have c: "b64val c = None" "c \<noteq> CHR ''=''"
        by (simp_all add: outside_alphabet_def)
      have "replace_char ?T ?k u = ?T[?k := c]"
        using klen by (simp add: replace_char_def Cons Nil upd_conv_take_nth_drop)
      then show ?thesis using corrupted_unit_reports_error [OF i c] by simp
    next
      case (Cons c' u'')
      with \<open>u = c # u'\<close> u have hi: "list_all (\<lambda>c. 128 \<le> (of_char c :: nat)) u" and ne: "u \<noteq> []"
        by (simp_all add: outside_alphabet_def)
      have cls: "list_all b64_class P"
        by (simp add: P_def payload_text_def base64_encode_def b64encode_class)
      have c1: "list_all b64_class (take i P)" and c2: "list_all b64_class (drop (Suc i) P)"
        using cls by (auto simp: list_all_iff dest: in_set_takeD in_set_dropD)
      have "replace_char ?T ?k u
              = replace_char (pre @ CHR ''b'' # dq # dq # dq # P @ dq # dq # dq # post)
                  (length pre + 4 + i) u"
        using k eq by (simp add: P_def)
      also have "\<dots> = pre @ CHR ''b'' # dq # dq # dq # take i P @ u @ drop (Suc i) P
                          @ dq # dq # dq # post"
        using iP by (rule replace_in_block)
      finally have "replace_char ?T ?k u
              = pre @ CHR ''b'' # dq # dq # dq # take i P @ u @ drop (Suc i) P
                  @ dq # dq # dq # post" .
      then have "re_search (replace_char ?T ?k u) = None"
        using re_search_altered_multi [OF p c1 c2 ne hi] by simp
      then show ?thesis by (rule deobfuscate_no_block)
    qed
  qed
qed

theorem corrupted_block_reports_error_witness:
  "2 < length (payload_text framing_compress ''x = 1'' False) \<and>
   outside_alphabet [CHR ''!''] \<and> outside_alphabet [CHR 0xC3, CHR 0xA9] \<and>
   is_error_result
     (deobfuscate_python_code framing_decompress
        (replace_char (obfuscate_python_code framing_compress ''x = 1'' False ''standard'')
           (literal_start (obfuscate_python_code framing_compress ''x = 1'' False ''standard'') + 2)
           [CHR ''!''])) \<and>
   is_error_result
     (deobfuscate_python_code framing_decompress
        (replace_char (obfuscate_python_code framing_compress ''x = 1'' False ''standard'')
           (literal_start (obfuscate_python_code framing_compress ''x = 1'' False ''standard'') + 2)
           [CHR 0xC3, CHR 0xA9]))"
proof -
  have 1: "2 < length (payload_text framing_compress ''x = 1'' False)" by code_simp
  have 2: "outside_alphabet [CHR ''!'']" by code_simp
  have 3: "outside_alphabet [CHR 0xC3, CHR 0xA9]" by code_simp
  show ?thesis
    using corrupted_block_reports_error
            [of 2 framing_compress "''x = 1''" False "[CHR ''!'']" framing_decompress "''standard''",
             OF 1 2]
          corrupted_block_reports_error
            [of 2 framing_compress "''x = 1''" False "[CHR 0xC3, CHR 0xA9]" framing_decompress
                "''standard''", OF 1 3]
          1 2 3
    by simp
qed

section \<open>Round trip of obfuscate_python_code and deobfuscate_python_code\<close>

lemma unat_of_char: "unat (of_char c :: byte) = (of_char c :: nat)"
proof -
  have "(of_char c :: byte) = of_nat (of_char c)" by (simp add: of_nat_of_char)
  then have "unat (of_char c :: byte) = (of_char c :: nat) mod 256"
    by (simp add: unat_of_nat)
  then show ?thesis by simp
qed

lemma utf8_units_back: "map (\<lambda>b. char_of (unat b)) (utf8_encode s) = s"
  by (induction s) (simp_all add: utf8_encode_def unat_of_char)

lemma utf8_roundtrip:
  "utf8_valid (utf8_encode s) \<Longrightarrow> utf8_decode (utf8_encode s) = Inr s"
  by (simp add: utf8_decode_def utf8_units_back)

lemma inj_utf8_unit: "(of_char c :: byte) = of_char d \<longleftrightarrow> c = d"
proof
  assume "(of_char c :: byte) = of_char d"
  then have "unat (of_char c :: byte) = unat (of_char d :: byte)" by simp
  then show "c = d" by (simp add: unat_of_char)
qed simp

lemma prefix_utf8: "prefix (utf8_encode N) (utf8_encode T) \<longleftrightarrow> prefix N T"
proof (induction N arbitrary: T)
  case Nil
  show ?case by (simp add: utf8_encode_def)
next
  case (Cons a N)
  show ?case
  proof (cases T)
    case Nil
    then show ?thesis by (simp add: utf8_encode_def)
  next
    case (Cons c T')
    then show ?thesis
      using Cons.IH [of T'] by (simp add: utf8_encode_def inj_utf8_unit)
  qed
qed

lemma contains_utf8: "contains (utf8_encode N) (utf8_encode T) \<longleftrightarrow> contains N T"
proof (induction T)
  case Nil
  then show ?case by (simp add: utf8_encode_def)
next
  case (Cons c T)
  have "prefix (utf8_encode N) (utf8_encode (c # T)) \<longleftrightarrow> prefix N (c # T)"
    by (rule prefix_utf8)
  then show ?case using Cons by (simp add: utf8_encode_def)
qed

lemma a2b_encode: "a2b_base64 (b64encode bs) 0 l p out = Inr (out @ bs)"
proof (induction bs arbitrary: l p out rule: b64encode.induct)
  case 1
  show ?case by simp
next
  case (2 a)
  have a: "unat a < 256" by (rule unat_byte_lt)
  have v: "b64val (b64char (unat a div 4)) = Some (unat a div 4)"
    "b64val (b64char (unat a mod 4 * 16)) = Some (unat a mod 4 * 16)"
    using a by (simp_all add: b64val_b64char)
  have ne: "b64char (unat a div 4) \<noteq> CHR ''=''" "b64char (unat a mod 4 * 16) \<noteq> CHR ''=''"
    using v by auto
  have "unat a div 4 * 4 + unat a mod 4 * 16 div 16 = unat a" by simp
  then have b: "(of_nat (unat a div 4 * 4 + unat a mod 4 * 16 div 16) :: byte) = a" by simp
  show ?case using v ne b by simp
next
  case (3 a b)
  have a: "unat a < 256" "unat b < 256" by (rule unat_byte_lt)+
  let ?v1 = "unat a div 4" and ?v2 = "unat a mod 4 * 16 + unat b div 16" and ?v3 = "unat b mod 16 * 4"
  have v: "b64val (b64char ?v1) = Some ?v1" "b64val (b64char ?v2) = Some ?v2"
    "b64val (b64char ?v3) = Some ?v3"
    using a by (simp_all add: b64val_b64char)
  have ne: "b64char ?v1 \<noteq> CHR ''=''" "b64char ?v2 \<noteq> CHR ''=''" "b64char ?v3 \<noteq> CHR ''=''"
    using v by auto
  have "?v1 * 4 + ?v2 div 16 = unat a" "?v2 mod 16 * 16 + ?v3 div 4 = unat b"
    using a by simp_all
  then have b: "(of_nat (?v1 * 4 + ?v2 div 16) :: byte) = a"
    "(of_nat (?v2 mod 16 * 16 + ?v3 div 4) :: byte) = b" by simp_all
  show ?case using v ne b by simp
next
  case (4 a b c bs)
  have a: "unat a < 256" "unat b < 256" "unat c < 256" by (rule unat_byte_lt)+
  let ?v1 = "unat a div 4" and ?v2 = "unat a mod 4 * 16 + unat b div 16"
    and ?v3 = "unat b mod 16 * 4 + unat c div 64" and ?v4 = "unat c mod 64"
  have v: "b64val (b64char ?v1) = Some ?v1" "b64val (b64char ?v2) = Some ?v2"
    "b64val (b64char ?v3) = Some ?v3" "b64val (b64char ?v4) = Some ?v4"
    using a by (simp_all add: b64val_b64char)
  have ne: "b64char ?v1 \<noteq> CHR ''=''" "b64char ?v2 \<noteq> CHR ''=''" "b64char ?v3 \<noteq> CHR ''=''"
    "b64char ?v4 \<noteq> CHR ''=''"
    using v by auto
  have "?v1 * 4 + ?v2 div 16 = unat a" "?v2 mod 16 * 16 + ?v3 div 4 = unat b"
    "?v3 mod 4 * 64 + ?v4 = unat c"
    using a by simp_all
  then have b: "(of_nat (?v1 * 4 + ?v2 div 16) :: byte) = a"
    "(of_nat (?v2 mod 16 * 16 + ?v3 div 4) :: byte) = b"
    "(of_nat (?v3 mod 4 * 64 + ?v4) :: byte) = c" by simp_all
  show ?case using v ne b 4 [of 0 0 "out @ [a, b, c]"] by simp
qed

lemma b64_roundtrip: "b64decode (b64encode bs) = Inr bs"
  using a2b_encode [of bs 0 0 "[]"] by (simp add: b64decode_def b64encode_ascii)

lemma contains_skip:
  "y \<notin> set N \<Longrightarrow> c \<in> set N \<Longrightarrow> c \<notin> set Q \<Longrightarrow> contains N (Q @ y # R) = contains N R"
proof (induction Q)
  case Nil
  then have "\<not> prefix N (y # R)" by (cases N) auto
  then show ?case by simp
next
  case (Cons q Q)
  have "\<not> prefix N ((q # Q) @ y # R)"
  proof
    assume "prefix N ((q # Q) @ y # R)"
    then have "prefix N (q # Q)" using Cons.prems(1) by (rule prefix_through)
    then have "set N \<subseteq> set (q # Q)" by (rule set_mono_prefix)
    then show False using Cons.prems(2,3) by auto
  qed
  then show ?case using Cons by simp
qed

lemma class_no_dot: "list_all b64_class P \<Longrightarrow> CHR ''.'' \<notin> set P"
  by (auto simp: list_all_iff b64_class_def b64_digit_def b64val_def)

lemma marker_iff_compressed:
  "contains ''zlib.decompress'' (obfuscate_python_code zc src cmp template) \<longleftrightarrow> cmp"
proof -
  define P where "P = payload_text zc src cmp"
  have "list_all b64_class P"
    by (simp add: P_def payload_text_def base64_encode_def b64encode_class)
  then have nd: "CHR ''.'' \<notin> set P" by (rule class_no_dot)
  have sk: "contains ''zlib.decompress'' (P @ dq # R) = contains ''zlib.decompress'' R" for R
    by (rule contains_skip [OF _ _ nd]) simp_all
  have P: "base64_encode (zc (utf8_encode src)) = P" if "cmp"
    using that by (simp add: P_def payload_text_def)
  have P': "base64_encode (utf8_encode src) = P" if "\<not> cmp"
    using that by (simp add: P_def payload_text_def)
  show ?thesis
  proof (cases cmp)
    case True
    show ?thesis
      using True
      by (cases "template = ''compact''"; cases "template = ''obfuscated''")
         (simp_all add: obfuscate_python_code_def Let_def P sk)
  next
    case False
    show ?thesis
      using False
      by (cases "template = ''compact''"; cases "template = ''obfuscated''")
         (simp_all add: obfuscate_python_code_def Let_def P' sk)
  qed
qed

lemma second_marker_compressed:
  "contains ''_z=zlib.decompress'' (obfuscate_python_code zc src cmp template) \<Longrightarrow> cmp"
proof (rule ccontr)
  assume a: "contains ''_z=zlib.decompress'' (obfuscate_python_code zc src cmp template)"
    and n: "\<not> cmp"
  define P where "P = payload_text zc src cmp"
  have "list_all b64_class P"
    by (simp add: P_def payload_text_def base64_encode_def b64encode_class)
  then have nd: "CHR ''.'' \<notin> set P" by (rule class_no_dot)
  have sk: "contains ''_z=zlib.decompress'' (P @ dq # R) = contains ''_z=zlib.decompress'' R" for R
    by (rule contains_skip [OF _ _ nd]) simp_all
  have P': "base64_encode (utf8_encode src) = P"
    using n by (simp add: P_def payload_text_def)
  show False
    using a n
    by (cases "template = ''compact''"; cases "template = ''obfuscated''")
       (simp_all add: obfuscate_python_code_def Let_def P' sk)
qed

text \<open>
  Every other input is recovered. For a source that is well-formed UTF-8, with any
  template: when compression is on and \<^verbatim>\<open>zlib.decompress\<close> inverts \<^verbatim>\<open>zlib.compress\<close> on the
  source bytes (whose compressed form is not empty), or when compression is off and the
  source is not empty, decoding the loader gives the source back.
\<close>

lemma roundtrip_nonempty_block:
  assumes v: "utf8_valid (utf8_encode T)"
    and z: "cmp \<Longrightarrow> zd (zc (utf8_encode T)) = Inr (utf8_encode T) \<and> zc (utf8_encode T) \<noteq> []"
    and n: "\<not> cmp \<Longrightarrow> T \<noteq> []"
  shows "deobfuscate_python_code zd (obfuscate_python_code zc T cmp template) = T"
proof -
  obtain pre post where p: "dq \<notin> set pre" "dq \<notin> set post"
    and eq: "obfuscate_python_code zc T cmp template
       = pre @ CHR ''b'' # dq # dq # dq # payload_text zc T cmp @ dq # dq # dq # post"
    using obfuscate_shape by blast
  define bs where "bs = (if cmp then zc (utf8_encode T) else utf8_encode T)"
  define P where "P = b64encode bs"
  have P: "payload_text zc T cmp = P"
    by (simp add: payload_text_def base64_encode_def P_def bs_def)
  have "bs \<noteq> []" using z n by (auto simp: bs_def utf8_encode_def)
  then have ne: "P \<noteq> []" unfolding P_def by (cases bs rule: b64encode.cases) auto
  have s: "re_search (obfuscate_python_code zc T cmp template) = Some P"
    unfolding eq P using re_search_block [OF p b64encode_class, of bs] ne by (simp add: P_def)
  have f: "filter (\<lambda>c. c \<noteq> nl) P = P"
    unfolding P_def by (rule filter_nl_id [OF b64encode_no_nl])
  have d: "b64decode P = Inr bs" unfolding P_def by (rule b64_roundtrip)
  have m: "contains (utf8_encode ''zlib.decompress'')
             (utf8_encode (obfuscate_python_code zc T cmp template)) \<longleftrightarrow> cmp"
    unfolding contains_utf8 by (rule marker_iff_compressed)
  have m2: "contains (utf8_encode ''_z=zlib.decompress'')
             (utf8_encode (obfuscate_python_code zc T cmp template)) \<Longrightarrow> cmp"
    unfolding contains_utf8 by (rule second_marker_compressed)
  show ?thesis
  proof (cases cmp)
    case True
    then show ?thesis
      using s f d m z v by (simp add: deobfuscate_python_code_def bs_def utf8_roundtrip)
  next
    case False
    then show ?thesis
      using s f d m m2 v
      by (auto simp add: deobfuscate_python_code_def bs_def utf8_roundtrip decode_plain_def)
  qed
qed

end
